theory Spec2Isabelle
  imports
    Main
    "HOL-Library.FSet"
    "HOL-Library.Multiset"
    "HOL-Library.Product_Lexorder"
    "HOL-Library.Monad_Syntax"
begin

section \<open>Data model (src/minesweeper/minesweeper.py)\<close>

text \<open>
  A cell is a Python tuple \<open>(i, j)\<close> of unbounded integers. A Python \<open>set\<close> of cells is
  always finite, so it is a \<open>cell fset\<close>; \<open>len\<close> is \<open>fcard\<close>.
\<close>

type_synonym cell = "int \<times> int"

text \<open>
  \<open>class Sentence\<close> (lines 87-137): the fields \<open>cells\<close> and \<open>count\<close>. \<open>__eq__\<close>
  (lines 98-99) compares both fields, which is the equality of the record.
\<close>

record sentence =
  cells :: "cell fset"
  count :: int

text \<open>\<open>Sentence.__init__\<close> (lines 94-96); \<open>set(cells)\<close> is taken by the caller.\<close>

definition Sentence :: "cell fset \<Rightarrow> int \<Rightarrow> sentence" where
  "Sentence cs n = \<lparr>cells = cs, count = n\<rparr>"

text \<open>
  \<open>tuple(self.cells)\<close>: the cells of the set in the order Python iterates it. That order is
  not specified; the model enumerates in ascending order, and lemma \<open>for_cells_order\<close>
  below shows that the marking loops that consume the tuple do not depend on the order.
\<close>

definition tuple :: "cell fset \<Rightarrow> cell list" where
  "tuple cs = sorted_list_of_fset cs"

text \<open>
  \<open>Sentence.known_mines\<close> (lines 104-111) and \<open>Sentence.known_safes\<close> (lines 113-120).
  \<open>None\<close> is Python's \<open>None\<close>. Methods are written in state-passing style: the second
  component is the sentence after the call.
\<close>

definition known_mines :: "sentence \<Rightarrow> cell list option \<times> sentence" where
  "known_mines s =
     (if int (fcard (cells s)) = count s then (Some (tuple (cells s)), s) else (None, s))"

definition known_safes :: "sentence \<Rightarrow> cell list option \<times> sentence" where
  "known_safes s = (if count s = 0 then (Some (tuple (cells s)), s) else (None, s))"

text \<open>\<open>Sentence.mark_mine\<close> (lines 122-129) and \<open>Sentence.mark_safe\<close> (lines 131-137).\<close>

definition sentence_mark_mine :: "sentence \<Rightarrow> cell \<Rightarrow> sentence" where
  "sentence_mark_mine s c =
     (if c |\<in>| cells s then s\<lparr>cells := cells s |-| {|c|}, count := count s - 1\<rparr> else s)"

definition sentence_mark_safe :: "sentence \<Rightarrow> cell \<Rightarrow> sentence" where
  "sentence_mark_safe s c =
     (if c |\<in>| cells s then s\<lparr>cells := cells s |-| {|c|}\<rparr> else s)"

text \<open>
  \<open>class MinesweeperAI\<close> (lines 140-311). \<open>self.knowledge\<close> is a Python list of
  \<open>Sentence\<close> objects, and the objects are mutated in place while other lists
  (\<open>self.knowledge.copy()\<close>, \<open>remove_sentence\<close>) still refer to them. The model therefore
  keeps an explicit store: \<open>knowledge\<close> is a list of references and \<open>store\<close> maps a
  reference to the current value of the object.
\<close>

type_synonym ref = nat

record ai =
  height :: int
  width :: int
  moves_made :: "cell fset"
  mines :: "cell fset"
  safes :: "cell fset"
  knowledge :: "ref list"
  store :: "ref \<Rightarrow> sentence"

text \<open>\<open>MinesweeperAI.__init__\<close> (lines 145-159).\<close>

definition init :: "int \<Rightarrow> int \<Rightarrow> ai" where
  "init h w = \<lparr>height = h, width = w, moves_made = {||}, mines = {||}, safes = {||},
     knowledge = [], store = (\<lambda>_. Sentence {||} 0)\<rparr>"

text \<open>The sentences of the knowledge list, by value and in list order.\<close>

definition kvals :: "ai \<Rightarrow> sentence list" where
  "kvals st = map (store st) (knowledge st)"

text \<open>
  \<open>self.knowledge.append(Sentence(...))\<close>: the new object gets a reference that no element
  of the list holds (every other list of references in the program is drawn from
  \<open>self.knowledge\<close> and no object is created while such a list is stale).
\<close>

definition new_ref :: "ai \<Rightarrow> ref" where
  "new_ref st = Suc (fold max (knowledge st) 0)"

definition knowledge_append :: "ai \<Rightarrow> sentence \<Rightarrow> ai" where
  "knowledge_append st s =
     (let r = new_ref st in st\<lparr>knowledge := knowledge st @ [r], store := (store st)(r := s)\<rparr>)"

text \<open>
  \<open>list.remove(x)\<close> deletes the first element that is \<open>x\<close> or equal to it by \<open>__eq__\<close>,
  and raises \<open>ValueError\<close> when there is none. In the functions of this section a result
  \<open>None\<close> stands for "ValueError was raised". The other exception the code can raise,
  \<open>RecursionError\<close> when the call stack is exhausted, is the subject of the next section.
\<close>

fun list_remove :: "(ref \<Rightarrow> sentence) \<Rightarrow> ref list \<Rightarrow> ref \<Rightarrow> ref list option" where
  "list_remove h [] x = None"
| "list_remove h (r # rs) x =
     (if r = x \<or> h r = h x then Some rs
      else do { rs' \<leftarrow> list_remove h rs x; Some (r # rs') })"

definition knowledge_remove :: "ai \<Rightarrow> ref \<Rightarrow> ai option" where
  "knowledge_remove st x =
     do { rs \<leftarrow> list_remove (store st) (knowledge st) x; Some (st\<lparr>knowledge := rs\<rparr>) }"

text \<open>A \<open>for\<close> loop whose body may raise: the exception leaves the loop.\<close>

fun for_each :: "('s \<Rightarrow> 'a \<Rightarrow> 's option) \<Rightarrow> 'a list \<Rightarrow> 's \<Rightarrow> 's option" where
  "for_each body [] s = Some s"
| "for_each body (x # xs) s = do { s' \<leftarrow> body s x; for_each body xs s' }"

text \<open>\<open>for sentence in self.knowledge: sentence.m(cell)\<close>, the loop of lines 167-168 and 177-178.\<close>

definition for_knowledge :: "(sentence \<Rightarrow> sentence) \<Rightarrow> ai \<Rightarrow> ai" where
  "for_knowledge m st =
     fold (\<lambda>r s. s\<lparr>store := (store s)(r := m (store s r))\<rparr>) (knowledge st) st"

text \<open>\<open>MinesweeperAI.mark_mine\<close> (lines 161-168) and \<open>MinesweeperAI.mark_safe\<close> (lines 170-178).\<close>

definition mark_mine :: "ai \<Rightarrow> cell \<Rightarrow> ai" where
  "mark_mine st c =
     for_knowledge (\<lambda>s. sentence_mark_mine s c) (st\<lparr>mines := finsert c (mines st)\<rparr>)"

definition mark_safe :: "ai \<Rightarrow> cell \<Rightarrow> ai" where
  "mark_safe st c =
     (if c |\<notin>| safes st
      then for_knowledge (\<lambda>s. sentence_mark_safe s c) (st\<lparr>safes := finsert c (safes st)\<rparr>)
      else st)"

text \<open>\<open>0 <= i < self.height and 0 <= j < self.width\<close> (lines 74 and 241).\<close>

definition in_bounds :: "int \<Rightarrow> int \<Rightarrow> cell \<Rightarrow> bool" where
  "in_bounds h w c = (0 \<le> fst c \<and> fst c < h \<and> 0 \<le> snd c \<and> snd c < w)"

text \<open>
  The cells visited by \<open>for i in range(cell[0] - 1, cell[0] + 2): for j in
  range(cell[1] - 1, cell[1] + 2)\<close> (lines 66-67 and 239-240), in that order.
\<close>

definition block :: "cell \<Rightarrow> cell list" where
  "block c =
     concat (map (\<lambda>i. map (\<lambda>j. (i, j)) [snd c - 1 .. snd c + 1]) [fst c - 1 .. fst c + 1])"

text \<open>
  \<open>MinesweeperAI.add_neighbour_mines_knowledge\<close> (lines 233-247). \<open>neighbour_step\<close> is the
  body of the inner loop on the local variables \<open>count\<close> and \<open>neighbour_cells\<close>.
\<close>

definition neighbour_step :: "ai \<Rightarrow> cell \<Rightarrow> int \<times> cell list \<Rightarrow> int \<times> cell list" where
  "neighbour_step st current_cell acc =
     (case acc of (cnt, neighbour_cells) \<Rightarrow>
        if in_bounds (height st) (width st) current_cell then
          if current_cell |\<in>| mines st then (cnt - 1, neighbour_cells)
          else if \<not> (current_cell |\<in>| moves_made st \<or> current_cell |\<in>| safes st)
               then (cnt, neighbour_cells @ [current_cell])
               else (cnt, neighbour_cells)
        else (cnt, neighbour_cells))"

definition add_neighbour_mines_knowledge :: "ai \<Rightarrow> cell \<Rightarrow> int \<Rightarrow> ai" where
  "add_neighbour_mines_knowledge st c n =
     (case fold (neighbour_step st) (block c) (n, []) of
        (cnt, neighbour_cells) \<Rightarrow>
          knowledge_append st (Sentence (fset_of_list neighbour_cells) cnt))"

text \<open>
  \<open>MinesweeperAI.mark_safe_and_mine\<close> (lines 249-271). \<open>truthy\<close> is Python's truth value
  of \<open>None\<close> or a tuple; \<open>for_cells\<close> is \<open>if t: for c in t: self.mark(c)\<close>;
  \<open>resolve_step\<close> is the body of the \<open>for\<close> loop of lines 257-268 on the state and the
  local variable \<open>flag\<close>, where \<open>r\<close> is the object the loop variable \<open>sentence\<close> refers to;
  \<open>resolve_loop\<close> is the \<open>while flag\<close> loop, whose \<open>for\<close> loop runs over
  \<open>self.knowledge.copy()\<close>, the references the list holds when the pass starts;
  \<open>purge_step\<close> is the body of the loop of lines 269-271.
\<close>

fun truthy :: "cell list option \<Rightarrow> bool" where
  "truthy None = False"
| "truthy (Some []) = False"
| "truthy (Some (c # cs)) = True"

definition for_cells :: "(ai \<Rightarrow> cell \<Rightarrow> ai) \<Rightarrow> cell list option \<Rightarrow> ai \<Rightarrow> ai" where
  "for_cells mark t st =
     (case t of None \<Rightarrow> st | Some cs \<Rightarrow> if truthy t then fold (\<lambda>c s. mark s c) cs st else st)"

definition resolve_step :: "ai \<times> bool \<Rightarrow> ref \<Rightarrow> (ai \<times> bool) option" where
  "resolve_step sf r =
     (case sf of (st, flag) \<Rightarrow>
        let ms = fst (known_mines (store st r));
            ss = fst (known_safes (store st r))
        in do {
          (st1, flag1) \<leftarrow> (if truthy ms \<or> truthy ss
                            then do { st' \<leftarrow> knowledge_remove st r; Some (st', True) }
                            else Some (st, flag));
          Some (for_cells mark_safe ss (for_cells mark_mine ms st1), flag1)
        })"

function resolve_loop :: "ai \<Rightarrow> ai option" where
  "resolve_loop st =
     do { (st', flag) \<leftarrow> for_each resolve_step (knowledge st) (st, False);
          if flag then resolve_loop st' else Some st' }"
  by pat_completeness auto

definition purge_step :: "ai \<Rightarrow> ref \<Rightarrow> ai option" where
  "purge_step st r = (if cells (store st r) = {||} then knowledge_remove st r else Some st)"

definition mark_safe_and_mine :: "ai \<Rightarrow> ai option" where
  "mark_safe_and_mine st =
     do { st1 \<leftarrow> resolve_loop st; for_each purge_step (knowledge st1) st1 }"

text \<open>
  \<open>MinesweeperAI.remove_same_sentence\<close> (lines 302-311); \<open>sentence not in new_knowledge\<close>
  compares by \<open>__eq__\<close>.
\<close>

definition remove_same_sentence :: "ai \<Rightarrow> ai" where
  "remove_same_sentence st =
     st\<lparr>knowledge :=
          fold (\<lambda>r new_knowledge.
                  if store st r \<notin> set (map (store st) new_knowledge)
                  then new_knowledge @ [r] else new_knowledge)
            (knowledge st) []\<rparr>"

text \<open>
  \<open>itertools.permutations(xs, 2)\<close>: the pairs of elements at two different positions, in
  lexicographic order of the positions.
\<close>

definition permutations2 :: "'a list \<Rightarrow> ('a \<times> 'a) list" where
  "permutations2 xs =
     concat (map (\<lambda>i. concat (map (\<lambda>j. if i \<noteq> j then [(xs ! i, xs ! j)] else [])
                                [0..<length xs])) [0..<length xs])"

text \<open>
  \<open>MinesweeperAI.extract_from_problem\<close> (lines 273-300). \<open>subset_step\<close> is the body of the
  loop of lines 282-287 on the locals \<open>knowledge_subset_list\<close>, \<open>remove_sentence\<close> and
  \<open>flag\<close>; \<open>derive_step\<close> the body of the loop of lines 289-292; \<open>discard_step\<close> the body
  of the loop of lines 294-296, where \<open>sentence in self.knowledge\<close> compares by
  \<open>__eq__\<close>; \<open>extract_round\<close> is lines 278-296 and returns the state with \<open>flag\<close>.
  \<open>extract_from_problem\<close> is the recursion of lines 298-300 on a call stack that never
  runs out: what the call computes whenever it returns. The recursion with the bound of
  the interpreter on the depth of the stack is \<open>extract_from_problem_bounded\<close> in the next
  section.
\<close>

definition subset_step ::
  "ai \<Rightarrow> ref \<times> ref \<Rightarrow> (ref \<times> ref) list \<times> ref list \<times> bool
      \<Rightarrow> (ref \<times> ref) list \<times> ref list \<times> bool" where
  "subset_step st p acc =
     (case p of (k1, k2) \<Rightarrow> case acc of (knowledge_subset_list, remove_sentence, flag) \<Rightarrow>
        if cells (store st k1) |\<subseteq>| cells (store st k2)
        then (knowledge_subset_list @ [(k1, k2)], remove_sentence @ [k2], True)
        else (knowledge_subset_list, remove_sentence, flag))"

definition derive_step :: "ref \<times> ref \<Rightarrow> ai \<Rightarrow> ai" where
  "derive_step p st =
     (case p of (k1, k2) \<Rightarrow>
        knowledge_append st
          (Sentence (cells (store st k2) |-| cells (store st k1))
                    (count (store st k2) - count (store st k1))))"

definition discard_step :: "ai \<Rightarrow> ref \<Rightarrow> ai option" where
  "discard_step st r =
     (if store st r \<in> set (kvals st) then knowledge_remove st r else Some st)"

definition extract_round :: "ai \<Rightarrow> (ai \<times> bool) option" where
  "extract_round st =
     (let st1 = remove_same_sentence st in
      case fold (subset_step st1) (permutations2 (knowledge st1)) ([], [], False) of
        (knowledge_subset_list, remove_sentence, flag) \<Rightarrow>
          do { st3 \<leftarrow> for_each discard_step remove_sentence
                        (fold derive_step knowledge_subset_list st1);
               Some (st3, flag) })"

function extract_from_problem :: "ai \<Rightarrow> ai option" where
  "extract_from_problem st =
     do { (st3, flag) \<leftarrow> extract_round st;
          if flag
          then do { st4 \<leftarrow> mark_safe_and_mine st3; extract_from_problem st4 }
          else Some st3 }"
  by pat_completeness auto

text \<open>\<open>MinesweeperAI.add_knowledge\<close> (lines 180-199).\<close>

definition add_knowledge :: "ai \<Rightarrow> cell \<Rightarrow> int \<Rightarrow> ai option" where
  "add_knowledge st c n =
     (let st1 = st\<lparr>moves_made := finsert c (moves_made st)\<rparr>;
          st2 = mark_safe st1 c;
          st3 = add_neighbour_mines_knowledge st2 c n
      in do { st4 \<leftarrow> mark_safe_and_mine st3; extract_from_problem st4 })"

text \<open>
  \<open>MinesweeperAI.make_safe_move\<close> (lines 201-213). \<open>set.pop()\<close> returns an arbitrary
  element and raises \<open>KeyError\<close> on the empty set, which the \<open>except\<close> clause turns into
  \<open>None\<close>. The model gives the set of possible outcomes: the returned value paired with
  the state after the call. The popped set is the fresh object \<open>self.safes -
  self.moves_made\<close>, so no field of \<open>self\<close> is assigned.
\<close>

definition make_safe_move :: "ai \<Rightarrow> (cell option \<times> ai) set" where
  "make_safe_move st =
     (let pool = safes st |-| moves_made st
      in if pool = {||} then {(None, st)} else (\<lambda>c. (Some c, st)) ` fset pool)"

text \<open>
  \<open>MinesweeperAI.make_random_move\<close> (lines 215-231). \<open>random.choice\<close> returns an element
  of the list at a random position and raises \<open>IndexError\<close> on the empty list; the
  outcomes are modelled as for \<open>make_safe_move\<close>.
\<close>

definition make_random_move :: "ai \<Rightarrow> (cell option \<times> ai) set" where
  "make_random_move st =
     (let choice = filter (\<lambda>c. c |\<notin>| mines st \<and> c |\<notin>| moves_made st)
                     (concat (map (\<lambda>i. map (\<lambda>j. (i, j)) [0 .. width st - 1])
                                  [0 .. height st - 1]))
      in if choice = [] then {(None, st)} else (\<lambda>c. (Some c, st)) ` set choice)"

text \<open>
  \<open>Minesweeper.nearby_mines\<close> (lines 55-78) for a board of the given height and width;
  \<open>board\<close> is the set of cells \<open>(i, j)\<close> with \<open>self.board[i][j]\<close> true.
\<close>

definition nearby_mines :: "int \<Rightarrow> int \<Rightarrow> cell fset \<Rightarrow> cell \<Rightarrow> int" where
  "nearby_mines h w board c =
     fold (\<lambda>x cnt. if x = c then cnt
                    else if in_bounds h w x then (if x |\<in>| board then cnt + 1 else cnt)
                    else cnt)
       (block c) 0"

text \<open>
  A game: the driver calls \<open>add_knowledge\<close> once per revealed cell. An observation
  \<open>(c, n)\<close> is truthful for a board when \<open>c\<close> is not a mine of the board and \<open>n\<close> is
  what the board's \<open>nearby_mines\<close> reports for \<open>c\<close>.
\<close>

fun run :: "ai \<Rightarrow> (cell \<times> int) list \<Rightarrow> ai option" where
  "run st [] = Some st"
| "run st ((c, n) # obs) = do { st' \<leftarrow> add_knowledge st c n; run st' obs }"

definition truthful :: "int \<Rightarrow> int \<Rightarrow> cell fset \<Rightarrow> cell \<times> int \<Rightarrow> bool" where
  "truthful h w board obs = (fst obs |\<notin>| board \<and> snd obs = nearby_mines h w board (fst obs))"

section \<open>The call stack\<close>

text \<open>
  CPython bounds the depth of the call stack (\<open>sys.getrecursionlimit()\<close>, 1000 frames
  unless it is changed) and raises \<open>RecursionError\<close> in the call that would exceed it.
  Every call made in \<open>add_knowledge\<close> nests to a fixed depth, except the call of line 300:
  each round of \<open>extract_from_problem\<close> that finds a subset pair runs the next round in a
  new activation on top of its own. So the depth the stack reaches varies with the input
  through the number of rounds only. \<open>depth\<close> is the number of nested activations of
  \<open>extract_from_problem\<close>, each with the calls it makes, that the stack has room for when
  \<open>add_knowledge\<close> calls it; the activation after these raises \<open>RecursionError\<close>. A
  result \<open>Inl e\<close> stands for "\<open>e\<close> was raised"; the state an exception leaves behind is
  not modelled.
\<close>

datatype error = ValueError | RecursionError

fun extract_from_problem_bounded :: "nat \<Rightarrow> ai \<Rightarrow> error + ai" where
  "extract_from_problem_bounded 0 st = Inl RecursionError"
| "extract_from_problem_bounded (Suc depth) st =
     (case extract_round st of
        None \<Rightarrow> Inl ValueError
      | Some (st3, flag) \<Rightarrow>
          if flag
          then (case mark_safe_and_mine st3 of
                  None \<Rightarrow> Inl ValueError
                | Some st4 \<Rightarrow> extract_from_problem_bounded depth st4)
          else Inr st3)"

definition add_knowledge_bounded :: "nat \<Rightarrow> ai \<Rightarrow> cell \<Rightarrow> int \<Rightarrow> error + ai" where
  "add_knowledge_bounded depth st c n =
     (let st1 = st\<lparr>moves_made := finsert c (moves_made st)\<rparr>;
          st2 = mark_safe st1 c;
          st3 = add_neighbour_mines_knowledge st2 c n
      in case mark_safe_and_mine st3 of
           None \<Rightarrow> Inl ValueError
         | Some st4 \<Rightarrow> extract_from_problem_bounded depth st4)"

text \<open>A game in which every call finds the stack at the same depth.\<close>

fun run_bounded :: "nat \<Rightarrow> ai \<Rightarrow> (cell \<times> int) list \<Rightarrow> error + ai" where
  "run_bounded depth st [] = Inr st"
| "run_bounded depth st ((c, n) # obs) =
     (case add_knowledge_bounded depth st c n of
        Inl e \<Rightarrow> Inl e
      | Inr st' \<Rightarrow> run_bounded depth st' obs)"

text \<open>The exception a result stands for, if any.\<close>

definition raised :: "error + ai \<Rightarrow> error option" where
  "raised r = (case r of Inl e \<Rightarrow> Some e | Inr _ \<Rightarrow> None)"

section \<open>Notions used in the proofs\<close>

text \<open>
  A sentence is resolvable when the test \<open>if mines or safes\<close> of line 260 succeeds for it,
  and a state is settled when no sentence of its knowledge list is resolvable or empty:
  this is what \<open>mark_safe_and_mine\<close> establishes.
\<close>

definition resolvable :: "sentence \<Rightarrow> bool" where
  "resolvable s = (truthy (fst (known_mines s)) \<or> truthy (fst (known_safes s)))"

definition settled :: "ai \<Rightarrow> bool" where
  "settled st = list_all (\<lambda>s. \<not> resolvable s \<and> cells s \<noteq> {||}) (kvals st)"

text \<open>
  The measure of \<open>extract_from_problem\<close>: the multiset of the sizes of the sentences of
  the knowledge list, ordered by the multiset extension of \<open><\<close>, after a flag that tells
  whether the list holds a sentence without cells.
\<close>

definition sizes :: "ai \<Rightarrow> nat multiset" where
  "sizes st = image_mset (\<lambda>s. fcard (cells s)) (mset (kvals st))"

definition has_empty :: "ai \<Rightarrow> bool" where
  "has_empty st = (\<exists>s \<in> set (kvals st). cells s = {||})"

definition sizes_le :: "ai \<Rightarrow> ai \<Rightarrow> bool" where
  "sizes_le st' st = ((sizes st', sizes st) \<in> (mult less_than)\<^sup>=)"

text \<open>
  The parts of a round of \<open>extract_from_problem\<close>: the test of line 284 on a pair of
  references, the sentence lines 290-292 build from a pair, and the loop of
  \<open>remove_same_sentence\<close> with its accumulator.
\<close>

definition subset_pair :: "ai \<Rightarrow> ref \<times> ref \<Rightarrow> bool" where
  "subset_pair st p = (cells (store st (fst p)) |\<subseteq>| cells (store st (snd p)))"

definition derived :: "ai \<Rightarrow> ref \<times> ref \<Rightarrow> sentence" where
  "derived st p =
     Sentence (cells (store st (snd p)) |-| cells (store st (fst p)))
              (count (store st (snd p)) - count (store st (fst p)))"

definition dedup :: "(ref \<Rightarrow> sentence) \<Rightarrow> ref list \<Rightarrow> ref list \<Rightarrow> ref list" where
  "dedup h rs acc =
     fold (\<lambda>r new_knowledge.
             if h r \<notin> set (map h new_knowledge) then new_knowledge @ [r] else new_knowledge) rs acc"

text \<open>
  The two tests of \<open>add_neighbour_mines_knowledge\<close> on a cell of the block: it is counted
  off as a known mine (line 243), or it enters the new sentence (line 245).
\<close>

definition mine_neighbour :: "ai \<Rightarrow> cell \<Rightarrow> bool" where
  "mine_neighbour st x = (in_bounds (height st) (width st) x \<and> x |\<in>| mines st)"

definition unknown_neighbour :: "ai \<Rightarrow> cell \<Rightarrow> bool" where
  "unknown_neighbour st x =
     (in_bounds (height st) (width st) x \<and> x |\<notin>| mines st \<and> x |\<notin>| moves_made st \<and> x |\<notin>| safes st)"

text \<open>
  A state predicate \<open>I\<close> is \<open>closed\<close> when every elementary change the engine makes
  preserves it: dropping references from the knowledge list, marking a cell of a resolved
  sentence, and appending the sentence derived from a subset pair. \<open>Jm\<close> and \<open>Js\<close> are
  what \<open>I\<close> guarantees about the cells of a sentence that resolves to mines or to safes.
\<close>

definition closed :: "(ai \<Rightarrow> bool) \<Rightarrow> (cell \<Rightarrow> bool) \<Rightarrow> (cell \<Rightarrow> bool) \<Rightarrow> bool" where
  "closed I Jm Js =
     ((\<forall>s ks. I s \<longrightarrow> set ks \<subseteq> set (knowledge s) \<longrightarrow> I (s\<lparr>knowledge := ks\<rparr>)) \<and>
      (\<forall>s r c. I s \<longrightarrow> int (fcard (cells (store s r))) = count (store s r) \<longrightarrow>
                 c |\<in>| cells (store s r) \<longrightarrow> Jm c) \<and>
      (\<forall>s r c. I s \<longrightarrow> count (store s r) = 0 \<longrightarrow> c |\<in>| cells (store s r) \<longrightarrow> Js c) \<and>
      (\<forall>s c. I s \<longrightarrow> Jm c \<longrightarrow> I (mark_mine s c)) \<and>
      (\<forall>s c. I s \<longrightarrow> Js c \<longrightarrow> I (mark_safe s c)) \<and>
      (\<forall>s p. I s \<longrightarrow> fst p \<in> set (knowledge s) \<longrightarrow> snd p \<in> set (knowledge s) \<longrightarrow>
               subset_pair s p \<longrightarrow> I (knowledge_append s (derived s p))))"

text \<open>
  The invariants. \<open>bounded\<close>: every sentence object and \<open>mines\<close> hold cells of the board
  only. \<open>purged\<close>: no sentence of the knowledge list holds a cell of \<open>mines\<close> or
  \<open>safes\<close>. \<open>normalized\<close>: purged, without empty sentences and without duplicates.
  \<open>sound\<close>: the count of a sentence is the number of its cells that are mines of the
  board. \<open>consistent\<close>: every sentence object is sound, \<open>mines\<close> holds mines of the
  board only, and \<open>safes\<close> and \<open>moves_made\<close> hold none.
\<close>

definition bounded :: "int \<Rightarrow> int \<Rightarrow> ai \<Rightarrow> bool" where
  "bounded h w st =
     (height st = h \<and> width st = w \<and>
      (\<forall>r c. c |\<in>| cells (store st r) \<longrightarrow> in_bounds h w c) \<and>
      (\<forall>c. c |\<in>| mines st \<longrightarrow> in_bounds h w c))"

definition purged :: "ai \<Rightarrow> bool" where
  "purged st =
     list_all (\<lambda>s. cells s |\<inter>| (mines st |\<union>| safes st) = {||}) (kvals st)"

definition normalized :: "ai \<Rightarrow> bool" where
  "normalized st =
     (list_all (\<lambda>s. cells s |\<inter>| (mines st |\<union>| safes st) = {||} \<and> cells s \<noteq> {||}) (kvals st) \<and>
      distinct (kvals st))"

definition sound :: "cell fset \<Rightarrow> sentence \<Rightarrow> bool" where
  "sound board s = (count s = int (fcard (cells s |\<inter>| board)))"

definition consistent :: "int \<Rightarrow> int \<Rightarrow> cell fset \<Rightarrow> ai \<Rightarrow> bool" where
  "consistent h w board st =
     (height st = h \<and> width st = w \<and> mines st |\<subseteq>| board \<and>
      (safes st |\<union>| moves_made st) |\<inter>| board = {||} \<and>
      (\<forall>r. sound board (store st r)))"

section \<open>Example inputs\<close>

text \<open>A state with one safe cell left to play and one known mine, on a 2 by 2 board.\<close>

definition example_state :: ai where
  "example_state = (init 2 2)\<lparr>safes := {|(0,0),(0,1)|}, moves_made := {|(0,0)|}, mines := {|(1,1)|}\<rparr>"

text \<open>The sentences of the subset-rule example of the specification.\<close>

definition sentence_A :: sentence where
  "sentence_A = Sentence {|(0, 0), (0, 1), (0, 2)|} 1"

definition sentence_B :: sentence where
  "sentence_B = Sentence {|(0, 0), (0, 1), (0, 2), (1, 0), (1, 1)|} 2"

definition sentence_D :: sentence where
  "sentence_D = Sentence {|(1, 0), (1, 1)|} 1"

definition subset_example :: ai where
  "subset_example = knowledge_append (knowledge_append (init 8 8) sentence_A) sentence_B"

text \<open>
  A game on the 3 by 3 board whose only mine is \<open>(0, 0)\<close>, and a game on a 1 by 2 board
  whose second observation contradicts the first: the first makes \<open>(0, 1)\<close> a mine, the
  second reveals that cell.
\<close>

definition example_game :: "(cell \<times> int) list" where
  "example_game = [((1, 1), 1), ((2, 2), 0)]"

definition example_final :: ai where
  "example_final = the (run (init 3 3) example_game)"

definition contradictory_game :: "(cell \<times> int) list" where
  "contradictory_game = [((0, 0), 1), ((0, 1), 0)]"

definition contradictory_final :: ai where
  "contradictory_final = the (run (init 1 2) contradictory_game)"


definition nested_game :: "(cell \<times> int) list" where
  "nested_game = [((0, 3), 1), ((1, 0), 2), ((1, 2), 2)]"

section \<open>Properties\<close>


subsection \<open>The loop over the knowledge list\<close>

lemma fold_store_fields:
  "height (fold (\<lambda>r s. s\<lparr>store := (store s)(r := m (store s r))\<rparr>) rs st) = height st"
  "width (fold (\<lambda>r s. s\<lparr>store := (store s)(r := m (store s r))\<rparr>) rs st) = width st"
  "moves_made (fold (\<lambda>r s. s\<lparr>store := (store s)(r := m (store s r))\<rparr>) rs st) = moves_made st"
  "mines (fold (\<lambda>r s. s\<lparr>store := (store s)(r := m (store s r))\<rparr>) rs st) = mines st"
  "safes (fold (\<lambda>r s. s\<lparr>store := (store s)(r := m (store s r))\<rparr>) rs st) = safes st"
  "knowledge (fold (\<lambda>r s. s\<lparr>store := (store s)(r := m (store s r))\<rparr>) rs st) = knowledge st"
  "ai.more (fold (\<lambda>r s. s\<lparr>store := (store s)(r := m (store s r))\<rparr>) rs st) = ai.more st"
  by (induction rs arbitrary: st; simp)+

lemma fold_store_store:
  assumes "\<And>x. m (m x) = m x"
  shows "store (fold (\<lambda>r s. s\<lparr>store := (store s)(r := m (store s r))\<rparr>) rs st) r =
           (if r \<in> set rs then m (store st r) else store st r)"
  using assms by (induction rs arbitrary: st) auto

lemma for_knowledge_fields [simp]:
  "height (for_knowledge m st) = height st"
  "width (for_knowledge m st) = width st"
  "moves_made (for_knowledge m st) = moves_made st"
  "mines (for_knowledge m st) = mines st"
  "safes (for_knowledge m st) = safes st"
  "knowledge (for_knowledge m st) = knowledge st"
  "ai.more (for_knowledge m st) = ai.more st"
  by (simp_all add: for_knowledge_def fold_store_fields)

lemma store_for_knowledge:
  "(\<And>x. m (m x) = m x) \<Longrightarrow>
   store (for_knowledge m st) r = (if r \<in> set (knowledge st) then m (store st r) else store st r)"
  by (simp add: for_knowledge_def fold_store_store)

lemma sentence_mark_mine_idem [simp]:
  "sentence_mark_mine (sentence_mark_mine s c) c = sentence_mark_mine s c"
  by (simp add: sentence_mark_mine_def)

lemma sentence_mark_safe_idem [simp]:
  "sentence_mark_safe (sentence_mark_safe s c) c = sentence_mark_safe s c"
  by (simp add: sentence_mark_safe_def)

lemma mark_mine_fields [simp]:
  "height (mark_mine st c) = height st"
  "width (mark_mine st c) = width st"
  "moves_made (mark_mine st c) = moves_made st"
  "mines (mark_mine st c) = finsert c (mines st)"
  "safes (mark_mine st c) = safes st"
  "knowledge (mark_mine st c) = knowledge st"
  "ai.more (mark_mine st c) = ai.more st"
  by (simp_all add: mark_mine_def)

lemma store_mark_mine:
  "store (mark_mine st c) r =
     (if r \<in> set (knowledge st) then sentence_mark_mine (store st r) c else store st r)"
  by (simp add: mark_mine_def store_for_knowledge)

lemma mark_safe_fields [simp]:
  "height (mark_safe st c) = height st"
  "width (mark_safe st c) = width st"
  "moves_made (mark_safe st c) = moves_made st"
  "safes (mark_safe st c) = finsert c (safes st)"
  "mines (mark_safe st c) = mines st"
  "knowledge (mark_safe st c) = knowledge st"
  "ai.more (mark_safe st c) = ai.more st"
  by (auto simp add: mark_safe_def)

lemma store_mark_safe:
  "store (mark_safe st c) r =
     (if c |\<notin>| safes st \<and> r \<in> set (knowledge st)
      then sentence_mark_safe (store st r) c else store st r)"
  by (simp add: mark_safe_def store_for_knowledge)

subsection \<open>Idempotence of the marking operations\<close>

text \<open>
  Claim C9. For every state and every cell, calling \<open>MinesweeperAI.mark_safe\<close> twice in
  succession leaves the same state (sets, knowledge list and every sentence object) as
  calling it once, and likewise for \<open>MinesweeperAI.mark_mine\<close>.
\<close>

theorem mark_idempotent:
  "mark_safe (mark_safe st c) c = mark_safe st c \<and> mark_mine (mark_mine st c) c = mark_mine st c"
proof
  have "c |\<in>| safes (mark_safe st c)" by simp
  then show "mark_safe (mark_safe st c) c = mark_safe st c"
    unfolding mark_safe_def [of "mark_safe st c"] by simp
next
  have "store (mark_mine (mark_mine st c) c) = store (mark_mine st c)"
    by (rule ext) (simp add: store_mark_mine)
  then show "mark_mine (mark_mine st c) c = mark_mine st c"
    by (intro ai.equality) simp_all
qed

subsection \<open>The queries of a sentence\<close>

lemma tuple_cells [simp]: "fset_of_list (tuple cs) = cs" "distinct (tuple cs)" "set (tuple cs) = fset cs"
  by (simp_all add: tuple_def fset_of_list.abs_eq sorted_list_of_fset.rep_eq fset_inverse)

text \<open>
  Claim C6. \<open>known_mines\<close> returns a tuple holding exactly the cells of the sentence iff
  \<open>count = len(cells)\<close> and \<open>None\<close> otherwise; \<open>known_safes\<close> returns such a tuple iff
  \<open>count = 0\<close> and \<open>None\<close> otherwise; the sentence after either call is the sentence
  before it.
\<close>

theorem known_mines_known_safes:
  "(\<exists>t. fst (known_mines s) = Some t \<and> fset_of_list t = cells s \<and> distinct t)
     = (count s = int (fcard (cells s)))
   \<and> (fst (known_mines s) = None) = (count s \<noteq> int (fcard (cells s)))
   \<and> (\<exists>t. fst (known_safes s) = Some t \<and> fset_of_list t = cells s \<and> distinct t)
     = (count s = 0)
   \<and> (fst (known_safes s) = None) = (count s \<noteq> 0)
   \<and> snd (known_mines s) = s \<and> snd (known_safes s) = s"
  by (auto simp add: known_mines_def known_safes_def)

subsection \<open>Move selection\<close>

text \<open>
  Claim C7. Every outcome of \<open>make_safe_move\<close> leaves the state unchanged; when
  \<open>safes - moves_made\<close> is not empty the result is a cell of it, otherwise the result is
  \<open>None\<close>; the result is never a cell of \<open>moves_made\<close>. The call always has an
  outcome.
\<close>

theorem make_safe_move_query:
  "make_safe_move st \<noteq> {} \<and>
   (\<forall>(r, st') \<in> make_safe_move st.
      st' = st \<and>
      (safes st |-| moves_made st \<noteq> {||} \<longrightarrow>
         (\<exists>c. r = Some c \<and> c |\<in>| safes st |-| moves_made st)) \<and>
      (safes st |-| moves_made st = {||} \<longrightarrow> r = None) \<and>
      (\<forall>c. r = Some c \<longrightarrow> c |\<notin>| moves_made st))"
  by (auto simp add: make_safe_move_def Let_def)

lemma set_board_cells:
  "set (concat (map (\<lambda>i. map (\<lambda>j. (i, j)) [0 .. w - 1]) [0 .. h - 1])) = {c. in_bounds h w c}"
  by (auto simp add: in_bounds_def)

text \<open>
  Claim C8. Every outcome of \<open>make_random_move\<close> leaves the state unchanged; the result
  is \<open>None\<close> iff every cell of the board is in \<open>mines\<close> or in \<open>moves_made\<close>;
  a returned cell lies on the board and is neither in \<open>mines\<close> nor in
  \<open>moves_made\<close>. The call always has an outcome.
\<close>

theorem make_random_move_query:
  "make_random_move st \<noteq> {} \<and>
   (\<forall>(r, st') \<in> make_random_move st.
      st' = st \<and>
      (r = None) = (\<forall>c. in_bounds (height st) (width st) c \<longrightarrow> c |\<in>| mines st \<or> c |\<in>| moves_made st) \<and>
      (\<forall>c. r = Some c \<longrightarrow>
         c |\<notin>| mines st \<and> c |\<notin>| moves_made st \<and> in_bounds (height st) (width st) c))"
  unfolding make_random_move_def Let_def
  by (auto simp add: filter_empty_conv set_board_cells simp del: set_concat)


lemma make_safe_move_mem:
  "c |\<in>| safes st |-| moves_made st \<Longrightarrow> (Some c, st) \<in> make_safe_move st"
  by (auto simp add: make_safe_move_def Let_def)

lemma make_random_move_mem:
  assumes "in_bounds (height st) (width st) c" "c |\<notin>| mines st" "c |\<notin>| moves_made st"
  shows "(Some c, st) \<in> make_random_move st"
proof -
  let ?choice = "filter (\<lambda>c. c |\<notin>| mines st \<and> c |\<notin>| moves_made st)
                     (concat (map (\<lambda>i. map (\<lambda>j. (i, j)) [0 .. width st - 1])
                                  [0 .. height st - 1]))"
  have "c \<in> set ?choice"
    using assms by (simp add: set_board_cells del: set_concat)
  moreover from this have "?choice \<noteq> []" by (metis empty_iff empty_set)
  ultimately show ?thesis
    unfolding make_random_move_def Let_def by (simp del: set_filter set_concat)
qed

theorem make_safe_move_query_witness:
  "(Some (0, 1), example_state) \<in> make_safe_move example_state \<and>
   safes example_state |-| moves_made example_state \<noteq> {||} \<and>
   (0, 1) |\<in>| safes example_state |-| moves_made example_state \<and>
   (0, 1) |\<notin>| moves_made example_state"
proof -
  have "(0, 1) |\<in>| safes example_state |-| moves_made example_state"
    by (simp add: example_state_def init_def)
  then have "(Some (0, 1), example_state) \<in> make_safe_move example_state"
    by (rule make_safe_move_mem)
  with make_safe_move_query [of example_state] show ?thesis
    by fastforce
qed

theorem make_random_move_query_witness:
  "(Some (0, 1), example_state) \<in> make_random_move example_state \<and>
   in_bounds (height example_state) (width example_state) (0, 1) \<and>
   (0, 1) |\<notin>| mines example_state \<and> (0, 1) |\<notin>| moves_made example_state"
proof -
  have "(Some (0, 1), example_state) \<in> make_random_move example_state"
    by (rule make_random_move_mem) (simp_all add: example_state_def init_def in_bounds_def)
  with make_random_move_query [of example_state] show ?thesis
    by fastforce
qed

subsection \<open>Removing from and appending to the knowledge list\<close>

lemma list_remove_Some:
  "list_remove h rs x = Some rs' \<Longrightarrow>
     length rs = Suc (length rs') \<and> map h rs' = remove1 (h x) (map h rs) \<and>
     h x \<in> h ` set rs \<and> set rs' \<subseteq> set rs \<and> mset rs' \<subseteq># mset rs"
proof (induction rs arbitrary: rs')
  case Nil
  then show ?case by simp
next
  case (Cons r rs)
  show ?case
  proof (cases "r = x \<or> h r = h x")
    case True
    with Cons.prems show ?thesis by auto
  next
    case False
    with Cons.prems obtain rs'' where r: "list_remove h rs x = Some rs''" "rs' = r # rs''"
      by (auto split: bind_splits)
    from Cons.IH [OF r(1)] r(2) False show ?thesis by auto
  qed
qed

lemma list_remove_present:
  "h x \<in> h ` set rs \<Longrightarrow> \<exists>rs'. list_remove h rs x = Some rs'"
  by (induction rs) auto

lemma list_remove_suffix:
  "\<exists>ds'. list_remove h (ds @ x # rest) x = Some (ds' @ rest) \<and> set ds' \<subseteq> set (ds @ [x])
      \<and> (h x \<notin> h ` set ds \<longrightarrow> ds' = ds)"
proof (induction ds)
  case Nil
  then show ?case by simp
next
  case (Cons d ds)
  then obtain ds' where "list_remove h (ds @ x # rest) x = Some (ds' @ rest)"
    "set ds' \<subseteq> set (ds @ [x])" "h x \<notin> h ` set ds \<longrightarrow> ds' = ds" by blast
  then show ?case
    by (cases "d = x \<or> h d = h x") (auto intro: exI [of _ "d # ds'"] exI [of _ ds])
qed

lemma knowledge_remove_Some:
  assumes "knowledge_remove st x = Some st'"
  shows "st' = st\<lparr>knowledge := knowledge st'\<rparr>"
    and "length (knowledge st) = Suc (length (knowledge st'))"
    and "kvals st' = remove1 (store st x) (kvals st)"
    and "store st x \<in> set (kvals st)"
    and "set (knowledge st') \<subseteq> set (knowledge st)"
    and "mset (knowledge st') \<subseteq># mset (knowledge st)"
proof -
  from assms obtain rs where rs: "list_remove (store st) (knowledge st) x = Some rs"
    and st': "st' = st\<lparr>knowledge := rs\<rparr>"
    by (auto simp add: knowledge_remove_def split: bind_splits)
  from st' show "st' = st\<lparr>knowledge := knowledge st'\<rparr>" by simp
  from list_remove_Some [OF rs] st'
  show "length (knowledge st) = Suc (length (knowledge st'))"
    and "kvals st' = remove1 (store st x) (kvals st)"
    and "store st x \<in> set (kvals st)"
    and "set (knowledge st') \<subseteq> set (knowledge st)"
    and "mset (knowledge st') \<subseteq># mset (knowledge st)"
    by (simp_all add: kvals_def)
qed

lemma knowledge_remove_suffix:
  assumes "knowledge st = ds @ r # rs"
  obtains ds' where "knowledge_remove st r = Some (st\<lparr>knowledge := ds' @ rs\<rparr>)"
    and "store st r \<notin> store st ` set ds \<Longrightarrow> ds' = ds"
proof -
  from list_remove_suffix [of "store st" ds r rs] obtain ds' where
    "list_remove (store st) (ds @ r # rs) r = Some (ds' @ rs)"
    "store st r \<notin> store st ` set ds \<longrightarrow> ds' = ds" by blast
  with assms have "knowledge_remove st r = Some (st\<lparr>knowledge := ds' @ rs\<rparr>)"
    "store st r \<notin> store st ` set ds \<Longrightarrow> ds' = ds"
    by (simp_all add: knowledge_remove_def)
  then show ?thesis by (rule that)
qed

lemma knowledge_remove_fields:
  assumes "knowledge_remove st x = Some st'"
  shows "height st' = height st" "width st' = width st" "moves_made st' = moves_made st"
    "mines st' = mines st" "safes st' = safes st" "store st' = store st"
  using assms by (auto simp add: knowledge_remove_def split: bind_splits)

lemma fold_max_ge: "a \<le> fold max rs (a::nat)" "r \<in> set rs \<Longrightarrow> r \<le> fold max rs a"
proof (induction rs arbitrary: a)
  case Nil
  { case 1 show ?case by simp }
  { case 2 then show ?case by simp }
next
  case (Cons x rs)
  { case 1 show ?case using Cons.IH(1) [of "max x a"] by simp }
  { case 2 then show ?case
      using Cons.IH(1) [of "max x a"] Cons.IH(2) [of "max x a"] by auto }
qed

lemma new_ref_fresh: "new_ref st \<notin> set (knowledge st)"
  using fold_max_ge(2) [of "new_ref st" "knowledge st" 0] by (auto simp add: new_ref_def)

lemma knowledge_append_fields [simp]:
  "height (knowledge_append st s) = height st"
  "width (knowledge_append st s) = width st"
  "moves_made (knowledge_append st s) = moves_made st"
  "mines (knowledge_append st s) = mines st"
  "safes (knowledge_append st s) = safes st"
  "knowledge (knowledge_append st s) = knowledge st @ [new_ref st]"
  "store (knowledge_append st s) = (store st)(new_ref st := s)"
  by (simp_all add: knowledge_append_def Let_def)

lemma kvals_knowledge_append [simp]: "kvals (knowledge_append st s) = kvals st @ [s]"
  using new_ref_fresh [of st] by (auto simp add: kvals_def)

lemma kvals_for_knowledge:
  "(\<And>x. m (m x) = m x) \<Longrightarrow> kvals (for_knowledge m st) = map m (kvals st)"
  by (simp add: kvals_def store_for_knowledge)

lemma kvals_mark_mine: "kvals (mark_mine st c) = map (\<lambda>s. sentence_mark_mine s c) (kvals st)"
  by (simp add: kvals_def store_mark_mine)

lemma kvals_mark_safe:
  "kvals (mark_safe st c) =
     (if c |\<in>| safes st then kvals st else map (\<lambda>s. sentence_mark_safe s c) (kvals st))"
  by (simp add: kvals_def store_mark_safe)

subsection \<open>The marking loops\<close>

lemma fold_mark_mine_fields [simp]:
  "height (fold (\<lambda>c s. mark_mine s c) cs st) = height st"
  "width (fold (\<lambda>c s. mark_mine s c) cs st) = width st"
  "moves_made (fold (\<lambda>c s. mark_mine s c) cs st) = moves_made st"
  "safes (fold (\<lambda>c s. mark_mine s c) cs st) = safes st"
  "knowledge (fold (\<lambda>c s. mark_mine s c) cs st) = knowledge st"
  "mines (fold (\<lambda>c s. mark_mine s c) cs st) = mines st |\<union>| fset_of_list cs"
  by (induction cs arbitrary: st; auto)+

lemma fold_mark_safe_fields [simp]:
  "height (fold (\<lambda>c s. mark_safe s c) cs st) = height st"
  "width (fold (\<lambda>c s. mark_safe s c) cs st) = width st"
  "moves_made (fold (\<lambda>c s. mark_safe s c) cs st) = moves_made st"
  "mines (fold (\<lambda>c s. mark_safe s c) cs st) = mines st"
  "knowledge (fold (\<lambda>c s. mark_safe s c) cs st) = knowledge st"
  "safes (fold (\<lambda>c s. mark_safe s c) cs st) = safes st |\<union>| fset_of_list cs"
  by (induction cs arbitrary: st; auto)+

lemma for_cells_cases:
  "for_cells mark t st = (if truthy t then fold (\<lambda>c s. mark s c) (case t of Some cs \<Rightarrow> cs | None \<Rightarrow> []) st else st)"
  by (cases t) (simp_all add: for_cells_def)

lemma for_cells_mark_mine_fields [simp]:
  "height (for_cells mark_mine t st) = height st"
  "width (for_cells mark_mine t st) = width st"
  "moves_made (for_cells mark_mine t st) = moves_made st"
  "safes (for_cells mark_mine t st) = safes st"
  "knowledge (for_cells mark_mine t st) = knowledge st"
  by (simp_all add: for_cells_cases)

lemma for_cells_mark_safe_fields [simp]:
  "height (for_cells mark_safe t st) = height st"
  "width (for_cells mark_safe t st) = width st"
  "moves_made (for_cells mark_safe t st) = moves_made st"
  "mines (for_cells mark_safe t st) = mines st"
  "knowledge (for_cells mark_safe t st) = knowledge st"
  by (simp_all add: for_cells_cases)

subsection \<open>Termination of the resolution loop\<close>

lemma for_cells_not_truthy [simp]: "\<not> truthy t \<Longrightarrow> for_cells mark t st = st"
  by (cases t) (simp_all add: for_cells_def)

lemma resolve_step_unresolved:
  "\<not> resolvable (store st r) \<Longrightarrow> resolve_step (st, flag) r = Some (st, flag)"
  by (simp add: resolve_step_def resolvable_def Let_def)

lemma resolve_step_resolved:
  "resolvable (store st r) \<Longrightarrow>
   resolve_step (st, flag) r =
     do { st1 \<leftarrow> knowledge_remove st r;
          Some (for_cells mark_safe (fst (known_safes (store st r)))
                  (for_cells mark_mine (fst (known_mines (store st r))) st1), True) }"
  by (simp add: resolve_step_def resolvable_def Let_def split: bind_splits)

lemma resolve_step_cases:
  assumes "resolve_step (st, flag) r = Some (st', flag')"
  obtains
    (resolved) st1 where
      "resolvable (store st r)"
      "knowledge_remove st r = Some st1" "flag'"
      "st' = for_cells mark_safe (fst (known_safes (store st r)))
               (for_cells mark_mine (fst (known_mines (store st r))) st1)"
  | (unresolved) "\<not> resolvable (store st r)" "st' = st" "flag' = flag"
proof (cases "resolvable (store st r)")
  case True
  from assms obtain st1 where "knowledge_remove st r = Some st1" "flag'"
      "st' = for_cells mark_safe (fst (known_safes (store st r)))
               (for_cells mark_mine (fst (known_mines (store st r))) st1)"
    unfolding resolve_step_resolved [OF True] by (auto split: bind_splits)
  with True show ?thesis by (rule resolved)
next
  case False
  from assms have "st' = st" "flag' = flag"
    unfolding resolve_step_unresolved [OF False] by simp_all
  with False show ?thesis by (rule unresolved)
qed

lemma resolve_step_length:
  assumes "resolve_step (st, flag) r = Some (st', flag')"
  shows "length (knowledge st') \<le> length (knowledge st) \<and>
         (flag' \<longrightarrow> flag \<or> length (knowledge st') < length (knowledge st))"
  using assms
proof (cases rule: resolve_step_cases)
  case (resolved st1)
  with knowledge_remove_Some(2) [OF resolved(2)] show ?thesis by simp
next
  case unresolved
  then show ?thesis by simp
qed

lemma for_each_resolve_step_length:
  "for_each resolve_step rs (st, flag) = Some (st', flag') \<Longrightarrow>
     length (knowledge st') \<le> length (knowledge st) \<and>
     (flag' \<longrightarrow> flag \<or> length (knowledge st') < length (knowledge st))"
proof (induction rs arbitrary: st flag)
  case Nil
  then show ?case by simp
next
  case (Cons r rs)
  from Cons.prems obtain st1 flag1 where
    s: "resolve_step (st, flag) r = Some (st1, flag1)"
    and f: "for_each resolve_step rs (st1, flag1) = Some (st', flag')"
    by (auto split: bind_splits)
  from resolve_step_length [OF s] Cons.IH [OF f] show ?case by auto
qed

termination resolve_loop
proof (relation "measure (\<lambda>st. length (knowledge st))")
  show "wf (measure (\<lambda>st. length (knowledge st)))" by simp
next
  fix st :: ai and x y z
  assume "for_each resolve_step (knowledge st) (st, False) = Some x" "(y, z) = x" "z"
  then have "for_each resolve_step (knowledge st) (st, False) = Some (y, True)" by auto
  from for_each_resolve_step_length [OF this]
  show "(y, st) \<in> measure (\<lambda>st. length (knowledge st))" by simp
qed

declare resolve_loop.simps [simp del]

subsection \<open>No pass raises ValueError\<close>

lemma for_each_resolve_step_Some:
  "knowledge st = ds @ rs \<Longrightarrow> \<exists>st' flag'. for_each resolve_step rs (st, flag) = Some (st', flag')"
proof (induction rs arbitrary: st flag ds)
  case Nil
  then show ?case by simp
next
  case (Cons r rs)
  show ?case
  proof (cases "resolvable (store st r)")
    case False
    from Cons.prems have "knowledge st = (ds @ [r]) @ rs" by simp
    from Cons.IH [OF this] show ?thesis
      by (simp add: resolve_step_unresolved [OF False])
  next
    case True
    from Cons.prems obtain ds' where
      "knowledge_remove st r = Some (st\<lparr>knowledge := ds' @ rs\<rparr>)"
      by (rule knowledge_remove_suffix)
    moreover have "\<exists>st' flag'. for_each resolve_step rs
        (for_cells mark_safe (fst (known_safes (store st r)))
           (for_cells mark_mine (fst (known_mines (store st r))) (st\<lparr>knowledge := ds' @ rs\<rparr>)), True)
         = Some (st', flag')"
      by (rule Cons.IH [of _ ds']) simp
    ultimately show ?thesis
      by (simp add: resolve_step_resolved [OF True])
  qed
qed

lemma resolve_loop_Some: "\<exists>st'. resolve_loop st = Some st'"
proof (induction st rule: resolve_loop.induct)
  case (1 st)
  from for_each_resolve_step_Some [of st "[]" "knowledge st" False]
  obtain st1 flag1 where p: "for_each resolve_step (knowledge st) (st, False) = Some (st1, flag1)"
    by auto
  show ?case
  proof (cases flag1)
    case True
    with 1 [OF p refl] p show ?thesis
      by (subst resolve_loop.simps) simp
  next
    case False
    with p show ?thesis
      by (subst resolve_loop.simps) simp
  qed
qed

lemma for_each_purge_step:
  assumes "knowledge st = ds @ rs" "\<forall>d \<in> set ds. cells (store st d) \<noteq> {||}"
  shows "for_each purge_step rs st =
           Some (st\<lparr>knowledge := ds @ filter (\<lambda>r. cells (store st r) \<noteq> {||}) rs\<rparr>)"
  using assms
proof (induction rs arbitrary: st ds)
  case Nil
  then show ?case by simp
next
  case (Cons r rs)
  show ?case
  proof (cases "cells (store st r) = {||}")
    case True
    with Cons.prems(2) have "store st r \<notin> store st ` set ds" by auto
    with knowledge_remove_suffix [OF Cons.prems(1)]
    have "knowledge_remove st r = Some (st\<lparr>knowledge := ds @ rs\<rparr>)"
      by metis
    with True have "purge_step st r = Some (st\<lparr>knowledge := ds @ rs\<rparr>)"
      by (simp add: purge_step_def)
    moreover have "for_each purge_step rs (st\<lparr>knowledge := ds @ rs\<rparr>) =
        Some (st\<lparr>knowledge := ds @ rs\<rparr>\<lparr>knowledge := ds @ filter (\<lambda>r. cells (store (st\<lparr>knowledge := ds @ rs\<rparr>) r) \<noteq> {||}) rs\<rparr>)"
      by (rule Cons.IH) (use Cons.prems(2) in simp_all)
    ultimately show ?thesis using True by simp
  next
    case False
    then have "purge_step st r = Some st"
      by (simp add: purge_step_def)
    moreover have "for_each purge_step rs st =
        Some (st\<lparr>knowledge := (ds @ [r]) @ filter (\<lambda>r. cells (store st r) \<noteq> {||}) rs\<rparr>)"
      by (rule Cons.IH) (use Cons.prems False in simp_all)
    ultimately show ?thesis using False by simp
  qed
qed

lemma mark_safe_and_mine_eq:
  "mark_safe_and_mine st =
     do { st1 \<leftarrow> resolve_loop st;
          Some (st1\<lparr>knowledge := filter (\<lambda>r. cells (store st1 r) \<noteq> {||}) (knowledge st1)\<rparr>) }"
  using for_each_purge_step [of _ "[]"]
  by (simp add: mark_safe_and_mine_def split: bind_splits)

lemma mark_safe_and_mine_Some: "\<exists>st'. mark_safe_and_mine st = Some st'"
  using resolve_loop_Some [of st] by (auto simp add: mark_safe_and_mine_eq)

subsection \<open>The measure of the subset-deduction recursion\<close>

lemma mult_subset_left:
  assumes "A \<subseteq># B" "(B, C) \<in> mult less_than"
  shows "(A, C) \<in> mult less_than"
proof (cases "A = B")
  case True
  with assms show ?thesis by simp
next
  case False
  with assms(1) have "A \<subset># B" by (simp add: subset_mset.less_le)
  then have "(A, B) \<in> mult less_than" by (rule subset_implies_mult)
  with assms(2) show ?thesis
    using trans_mult [OF trans_less_than] by (blast dest: transD)
qed

lemma mult_refl_left:
  assumes "(A, B) \<in> (mult less_than)\<^sup>=" "(B, C) \<in> mult less_than"
  shows "(A, C) \<in> mult less_than"
  using assms trans_mult [OF trans_less_than] by (auto dest: transD)

lemma mult_refl_trans:
  assumes "(A, B) \<in> (mult less_than)\<^sup>=" "(B, C) \<in> (mult less_than)\<^sup>="
  shows "(A, C) \<in> (mult less_than)\<^sup>="
  using assms trans_mult [OF trans_less_than] by (auto dest: transD)

lemma mult_subset_refl: "A \<subseteq># B \<Longrightarrow> (A, B) \<in> (mult less_than)\<^sup>="
  by (cases "A = B") (auto simp add: subset_mset.less_le intro: subset_implies_mult)

lemma image_mset_pointwise_le:
  fixes f g :: "'a \<Rightarrow> nat"
  assumes "\<And>x. x \<in># M \<Longrightarrow> f x \<le> g x"
  shows "(image_mset f M, image_mset g M) \<in> (mult less_than)\<^sup>="
  using assms
proof (induction M)
  case empty
  then show ?case by simp
next
  case (add x M)
  then have IH: "(image_mset f M, image_mset g M) \<in> (mult less_than)\<^sup>=" by simp
  have a: "(add_mset (f x) (image_mset f M), add_mset (f x) (image_mset g M)) \<in> (mult less_than)\<^sup>="
    using IH mult_cancel_add_mset [OF trans_less_than, of "f x" "image_mset f M" "image_mset g M"]
    by (auto simp add: irrefl_on_def)
  have b: "(add_mset (f x) (image_mset g M), add_mset (g x) (image_mset g M)) \<in> (mult less_than)\<^sup>="
  proof (cases "f x = g x")
    case True
    then show ?thesis by simp
  next
    case False
    with add.prems [of x] have "f x < g x" by simp
    then have "(image_mset g M + {#f x#}, image_mset g M + {#g x#}) \<in> mult less_than"
      by (intro one_step_implies_mult) simp_all
    then show ?thesis by simp
  qed
  from mult_refl_trans [OF a b] show ?case by simp
qed

lemma sizes_le_refl [simp]: "sizes_le st st"
  by (simp add: sizes_le_def)

lemma sizes_le_trans: "sizes_le st2 st1 \<Longrightarrow> sizes_le st1 st \<Longrightarrow> sizes_le st2 st"
  unfolding sizes_le_def by (rule mult_refl_trans)

lemma sizes_le_map:
  assumes "kvals st' = map m (kvals st)" "\<And>s. fcard (cells (m s)) \<le> fcard (cells s)"
  shows "sizes_le st' st"
  unfolding sizes_le_def sizes_def assms(1)
  using image_mset_pointwise_le [of "mset (kvals st)" "\<lambda>s. fcard (cells (m s))" "\<lambda>s. fcard (cells s)"]
  by (simp add: assms(2) image_mset.compositionality comp_def)

lemma sizes_le_sub:
  assumes "mset (kvals st') \<subseteq># mset (kvals st)"
  shows "sizes_le st' st"
  unfolding sizes_le_def sizes_def
  by (intro mult_subset_refl image_mset_subseteq_mono assms)

lemma fcard_sentence_mark_mine: "fcard (cells (sentence_mark_mine s c)) \<le> fcard (cells s)"
  by (simp add: sentence_mark_mine_def fcard_fminus1_le)

lemma fcard_sentence_mark_safe: "fcard (cells (sentence_mark_safe s c)) \<le> fcard (cells s)"
  by (simp add: sentence_mark_safe_def fcard_fminus1_le)

lemma sizes_le_mark_mine: "sizes_le (mark_mine st c) st"
  by (rule sizes_le_map [OF kvals_mark_mine fcard_sentence_mark_mine])

lemma sizes_le_mark_safe: "sizes_le (mark_safe st c) st"
proof (cases "c |\<in>| safes st")
  case True
  then show ?thesis by (simp add: mark_safe_def)
next
  case False
  then have "kvals (mark_safe st c) = map (\<lambda>s. sentence_mark_safe s c) (kvals st)"
    by (simp add: kvals_mark_safe)
  then show ?thesis by (rule sizes_le_map) (rule fcard_sentence_mark_safe)
qed

lemma sizes_le_fold_mark_mine: "sizes_le (fold (\<lambda>c s. mark_mine s c) cs st) st"
proof (induction cs arbitrary: st)
  case Nil
  show ?case by simp
next
  case (Cons c cs)
  from Cons [of "mark_mine st c"] sizes_le_mark_mine [of st c] show ?case
    by (auto intro: sizes_le_trans)
qed

lemma sizes_le_fold_mark_safe: "sizes_le (fold (\<lambda>c s. mark_safe s c) cs st) st"
proof (induction cs arbitrary: st)
  case Nil
  show ?case by simp
next
  case (Cons c cs)
  from Cons [of "mark_safe st c"] sizes_le_mark_safe [of st c] show ?case
    by (auto intro: sizes_le_trans)
qed

lemma sizes_le_for_cells:
  "sizes_le (for_cells mark_mine t st) st" "sizes_le (for_cells mark_safe t st) st"
  by (simp_all add: for_cells_cases sizes_le_fold_mark_mine sizes_le_fold_mark_safe)

lemma sizes_le_knowledge_remove:
  assumes "knowledge_remove st r = Some st'"
  shows "sizes_le st' st"
  by (rule sizes_le_sub) (simp add: knowledge_remove_Some(3) [OF assms])

lemma sizes_le_resolve_step:
  assumes "resolve_step (st, flag) r = Some (st', flag')"
  shows "sizes_le st' st"
  using assms
proof (cases rule: resolve_step_cases)
  case (resolved st1)
  from sizes_le_for_cells(2) sizes_le_for_cells(1) sizes_le_knowledge_remove [OF resolved(2)]
  show ?thesis unfolding resolved(4) by (blast intro: sizes_le_trans)
next
  case unresolved
  then show ?thesis by simp
qed

lemma sizes_le_for_each_resolve_step:
  "for_each resolve_step rs (st, flag) = Some (st', flag') \<Longrightarrow> sizes_le st' st"
proof (induction rs arbitrary: st flag)
  case Nil
  then show ?case by simp
next
  case (Cons r rs)
  from Cons.prems obtain st1 flag1 where
    s: "resolve_step (st, flag) r = Some (st1, flag1)"
    and f: "for_each resolve_step rs (st1, flag1) = Some (st', flag')"
    by (auto split: bind_splits)
  from sizes_le_resolve_step [OF s] Cons.IH [OF f] show ?case
    by (blast intro: sizes_le_trans)
qed

lemma sizes_le_resolve_loop: "resolve_loop st = Some st' \<Longrightarrow> sizes_le st' st"
proof (induction st rule: resolve_loop.induct)
  case (1 st)
  from "1.prems" obtain st1 flag1 where
    p: "for_each resolve_step (knowledge st) (st, False) = Some (st1, flag1)"
    and q: "(if flag1 then resolve_loop st1 else Some st1) = Some st'"
    by (subst (asm) resolve_loop.simps) (auto split: bind_splits)
  show ?case
  proof (cases flag1)
    case True
    with q "1.IH" [OF p refl] have "sizes_le st' st1" by simp
    with sizes_le_for_each_resolve_step [OF p] show ?thesis by (blast intro: sizes_le_trans)
  next
    case False
    with q sizes_le_for_each_resolve_step [OF p] show ?thesis by simp
  qed
qed

lemma mark_safe_and_mine_sizes:
  assumes "mark_safe_and_mine st = Some st'"
  shows "sizes_le st' st" "\<not> has_empty st'"
proof -
  from assms obtain st1 where r: "resolve_loop st = Some st1"
    and st': "st' = st1\<lparr>knowledge := filter (\<lambda>r. cells (store st1 r) \<noteq> {||}) (knowledge st1)\<rparr>"
    by (auto simp add: mark_safe_and_mine_eq split: bind_splits)
  have "image_mset (store st1) (mset (filter (\<lambda>r. cells (store st1 r) \<noteq> {||}) (knowledge st1)))
          \<subseteq># image_mset (store st1) (mset (knowledge st1))"
    by (rule image_mset_subseteq_mono) simp
  then have "mset (kvals st') \<subseteq># mset (kvals st1)"
    unfolding st' kvals_def by simp
  then have "sizes_le st' st1" by (rule sizes_le_sub)
  with sizes_le_resolve_loop [OF r] show "sizes_le st' st" by (blast intro: sizes_le_trans)
  show "\<not> has_empty st'"
    by (auto simp add: st' has_empty_def kvals_def)
qed

subsection \<open>One round of subset deduction\<close>

lemma dedup_simps [simp]:
  "dedup h [] acc = acc"
  "dedup h (r # rs) acc = dedup h rs (if h r \<notin> set (map h acc) then acc @ [r] else acc)"
  by (simp_all add: dedup_def)

lemma dedup_props:
  "distinct (map h acc) \<Longrightarrow>
     distinct (map h (dedup h rs acc)) \<and>
     set (map h (dedup h rs acc)) = set (map h acc) \<union> set (map h rs) \<and>
     set (dedup h rs acc) \<subseteq> set acc \<union> set rs \<and>
     mset (dedup h rs acc) \<subseteq># mset acc + mset rs"
proof (induction rs arbitrary: acc)
  case Nil
  then show ?case by simp
next
  case (Cons r rs)
  show ?case
  proof (cases "h r \<in> set (map h acc)")
    case True
    with Cons.IH [OF Cons.prems] show ?thesis
      by (auto intro: subset_mset.order_trans)
  next
    case False
    with Cons.prems have "distinct (map h (acc @ [r]))" by simp
    from Cons.IH [OF this] False show ?thesis by auto
  qed
qed

lemma dedup_distinct: "distinct (map h (acc @ rs)) \<Longrightarrow> dedup h rs acc = acc @ rs"
  by (induction rs arbitrary: acc) auto

lemma remove_same_sentence_eq:
  "remove_same_sentence st = st\<lparr>knowledge := dedup (store st) (knowledge st) []\<rparr>"
  by (simp add: remove_same_sentence_def dedup_def)

lemma remove_same_sentence_fields [simp]:
  "height (remove_same_sentence st) = height st"
  "width (remove_same_sentence st) = width st"
  "moves_made (remove_same_sentence st) = moves_made st"
  "mines (remove_same_sentence st) = mines st"
  "safes (remove_same_sentence st) = safes st"
  "store (remove_same_sentence st) = store st"
  by (simp_all add: remove_same_sentence_eq)

lemma remove_same_sentence_props:
  "distinct (kvals (remove_same_sentence st))"
  "set (kvals (remove_same_sentence st)) = set (kvals st)"
  "set (knowledge (remove_same_sentence st)) \<subseteq> set (knowledge st)"
  "mset (knowledge (remove_same_sentence st)) \<subseteq># mset (knowledge st)"
  using dedup_props [of "store st" "[]" "knowledge st"]
  by (simp_all add: remove_same_sentence_eq kvals_def)

lemma mset_kvals_remove_same_sentence:
  "mset (kvals (remove_same_sentence st)) \<subseteq># mset (kvals st)"
  using image_mset_subseteq_mono [OF remove_same_sentence_props(4), of "store st" st]
  by (simp add: kvals_def)

lemma remove_same_sentence_distinct:
  "distinct (kvals st) \<Longrightarrow> remove_same_sentence st = st"
  using dedup_distinct [of "store st" "[]" "knowledge st"]
  by (simp add: remove_same_sentence_eq kvals_def)

lemma permutations2_mem:
  assumes "p \<in> set (permutations2 xs)"
  shows "fst p \<in> set xs" "snd p \<in> set xs"
  using assms by (auto simp add: permutations2_def split: if_splits)

lemma subset_step_eq:
  "subset_step st p (sl, rl, fl) =
     (if subset_pair st p then (sl @ [p], rl @ [snd p], True) else (sl, rl, fl))"
  by (cases p) (simp add: subset_step_def subset_pair_def)

lemma fold_subset_step:
  "fold (subset_step st) ps (sl, rl, fl) =
     (sl @ filter (subset_pair st) ps, rl @ map snd (filter (subset_pair st) ps),
      fl \<or> filter (subset_pair st) ps \<noteq> [])"
  by (induction ps arbitrary: sl rl fl) (simp_all add: subset_step_eq)

lemma derive_step_eq: "derive_step p st = knowledge_append st (derived st p)"
  by (cases p) (simp add: derive_step_def derived_def)

lemma fold_derive_step:
  assumes "\<forall>p \<in> set sl. fst p \<in> set (knowledge st) \<and> snd p \<in> set (knowledge st)"
  shows "kvals (fold derive_step sl st) = kvals st @ map (derived st) sl \<and>
         (\<forall>r \<in> set (knowledge st). store (fold derive_step sl st) r = store st r) \<and>
         set (knowledge st) \<subseteq> set (knowledge (fold derive_step sl st)) \<and>
         height (fold derive_step sl st) = height st \<and>
         width (fold derive_step sl st) = width st \<and>
         moves_made (fold derive_step sl st) = moves_made st \<and>
         mines (fold derive_step sl st) = mines st \<and>
         safes (fold derive_step sl st) = safes st"
  using assms
proof (induction sl arbitrary: st)
  case Nil
  then show ?case by simp
next
  case (Cons p sl)
  let ?st = "derive_step p st"
  have keep: "\<forall>r \<in> set (knowledge st). store ?st r = store st r"
    using new_ref_fresh [of st] by (auto simp add: derive_step_eq)
  have sub: "set (knowledge st) \<subseteq> set (knowledge ?st)"
    by (auto simp add: derive_step_eq)
  from Cons.prems sub
  have "\<forall>q \<in> set sl. fst q \<in> set (knowledge ?st) \<and> snd q \<in> set (knowledge ?st)" by auto
  note IH = Cons.IH [OF this]
  from Cons.prems keep have "map (derived ?st) sl = map (derived st) sl"
    by (auto simp add: derived_def)
  with IH keep sub show ?case
    by (auto simp add: derive_step_eq)
qed

lemma discard_step_Some:
  obtains ks where "discard_step st r = Some (st\<lparr>knowledge := ks\<rparr>)"
    "map (store st) ks = remove1 (store st r) (kvals st)" "set ks \<subseteq> set (knowledge st)"
proof (cases "store st r \<in> set (kvals st)")
  case True
  then obtain rs where rs: "list_remove (store st) (knowledge st) r = Some rs"
    using list_remove_present [of "store st" r "knowledge st"] by (auto simp add: kvals_def)
  show ?thesis
  proof (rule that)
    from rs True show "discard_step st r = Some (st\<lparr>knowledge := rs\<rparr>)"
      by (simp add: discard_step_def knowledge_remove_def)
  qed (use list_remove_Some [OF rs] in \<open>simp_all add: kvals_def\<close>)
next
  case False
  show ?thesis
  proof (rule that)
    from False show "discard_step st r = Some (st\<lparr>knowledge := knowledge st\<rparr>)"
      by (simp add: discard_step_def)
  qed (use False in \<open>simp_all add: remove1_idem kvals_def\<close>)
qed

lemma for_each_discard_step:
  "\<exists>ks. for_each discard_step rl st = Some (st\<lparr>knowledge := ks\<rparr>) \<and>
         map (store st) ks = fold remove1 (map (store st) rl) (kvals st) \<and>
         set ks \<subseteq> set (knowledge st)"
proof (induction rl arbitrary: st)
  case Nil
  show ?case by (auto simp add: kvals_def intro: exI [of _ "knowledge st"])
next
  case (Cons r rl)
  obtain ks1 where d: "discard_step st r = Some (st\<lparr>knowledge := ks1\<rparr>)"
    "map (store st) ks1 = remove1 (store st r) (kvals st)" "set ks1 \<subseteq> set (knowledge st)"
    by (rule discard_step_Some)
  from Cons.IH [of "st\<lparr>knowledge := ks1\<rparr>"] obtain ks where
    f: "for_each discard_step rl (st\<lparr>knowledge := ks1\<rparr>) = Some (st\<lparr>knowledge := ks\<rparr>)"
      "map (store st) ks = fold remove1 (map (store st) rl) (map (store st) ks1)"
      "set ks \<subseteq> set ks1" by (auto simp add: kvals_def)
  from d f show ?case
    by (auto intro!: exI [of _ ks])
qed

lemma mset_fold_remove1: "mset (fold remove1 vs xs) = mset xs - mset vs"
  by (induction vs arbitrary: xs) simp_all

text \<open>What a round computes, on the values of the sentences.\<close>

lemma extract_round_Some:
  fixes st :: ai
  defines "st1 \<equiv> remove_same_sentence st"
  defines "sl \<equiv> filter (subset_pair st1) (permutations2 (knowledge st1))"
  obtains st3 where
    "extract_round st = Some (st3, sl \<noteq> [])"
    "kvals st3 = fold remove1 (map (\<lambda>p. store st1 (snd p)) sl) (kvals st1 @ map (derived st1) sl)"
    "height st3 = height st" "width st3 = width st" "moves_made st3 = moves_made st"
    "mines st3 = mines st" "safes st3 = safes st"
proof -
  let ?st2 = "fold derive_step sl st1"
  have mem: "\<forall>p \<in> set sl. fst p \<in> set (knowledge st1) \<and> snd p \<in> set (knowledge st1)"
    by (auto simp add: sl_def dest: permutations2_mem)
  note d = fold_derive_step [OF mem]
  from for_each_discard_step [of "map snd sl" ?st2] obtain ks where
    f: "for_each discard_step (map snd sl) ?st2 = Some (?st2\<lparr>knowledge := ks\<rparr>)"
      "map (store ?st2) ks = fold remove1 (map (store ?st2) (map snd sl)) (kvals ?st2)" by blast
  have *: "\<And>p. p \<in> set sl \<Longrightarrow> store ?st2 (snd p) = store st1 (snd p)"
    using mem d by blast
  have eq: "map (store ?st2) (map snd sl) = map (\<lambda>p. store st1 (snd p)) sl"
    unfolding map_map by (rule map_cong [OF refl]) (simp add: *)
  from f(2) have "map (store ?st2) ks =
      fold remove1 (map (\<lambda>p. store st1 (snd p)) sl) (kvals ?st2)"
    unfolding eq .
  also from d have "kvals ?st2 = kvals st1 @ map (derived st1) sl" by (rule conjunct1)
  finally have k: "kvals (?st2\<lparr>knowledge := ks\<rparr>) =
      fold remove1 (map (\<lambda>p. store st1 (snd p)) sl) (kvals st1 @ map (derived st1) sl)"
    by (simp add: kvals_def)
  have e: "extract_round st = Some (?st2\<lparr>knowledge := ks\<rparr>, sl \<noteq> [])"
    using f(1) by (simp add: extract_round_def Let_def fold_subset_step flip: st1_def sl_def)
  from d have "height (?st2\<lparr>knowledge := ks\<rparr>) = height st" "width (?st2\<lparr>knowledge := ks\<rparr>) = width st"
    "moves_made (?st2\<lparr>knowledge := ks\<rparr>) = moves_made st" "mines (?st2\<lparr>knowledge := ks\<rparr>) = mines st"
    "safes (?st2\<lparr>knowledge := ks\<rparr>) = safes st"
    by (simp_all add: st1_def)
  with e k show ?thesis by (rule that)
qed

subsection \<open>Termination of the subset-deduction recursion\<close>

lemma mset_diff_antimono:
  fixes A B C :: "'a multiset"
  assumes "C \<subseteq># B"
  shows "A - B \<subseteq># A - C"
  by (rule mset_subset_eqI) (simp add: mset_subset_eq_count [OF assms] diff_le_mono2)

lemma mset_add_diff_swap:
  fixes A B C :: "'a multiset"
  assumes "C \<subseteq># A"
  shows "A + B - C = (A - C) + B"
proof (rule multiset_eqI)
  fix x
  from mset_subset_eq_count [OF assms, of x]
  show "multiset.count (A + B - C) x = multiset.count (A - C + B) x" by simp
qed

lemma derived_smaller:
  assumes "subset_pair st p" "cells (store st (fst p)) \<noteq> {||}"
  shows "fcard (cells (derived st p)) < fcard (cells (store st (snd p)))"
proof -
  from assms have "cells (store st (snd p)) |-| cells (store st (fst p)) |\<subset>| cells (store st (snd p))"
    by (auto simp add: subset_pair_def)
  then show ?thesis
    by (simp add: derived_def Sentence_def pfsubset_fcard_mono)
qed

lemma extract_round_decreases:
  assumes "extract_round st = Some (st3, True)" "\<not> has_empty st"
  shows "(sizes st3, sizes st) \<in> mult less_than"
proof -
  define st1 where "st1 = remove_same_sentence st"
  define sl where "sl = filter (subset_pair st1) (permutations2 (knowledge st1))"
  define sz where "sz = (\<lambda>s :: sentence. fcard (cells s))"
  define V where "V = set (map (\<lambda>p. store st1 (snd p)) sl)"
  obtain st3' where "extract_round st = Some (st3', sl \<noteq> [])"
    and k': "kvals st3' =
      fold remove1 (map (\<lambda>p. store st1 (snd p)) sl) (kvals st1 @ map (derived st1) sl)"
    unfolding st1_def sl_def by (rule extract_round_Some)
  with assms(1) have ne: "sl \<noteq> []" and k: "kvals st3 =
      fold remove1 (map (\<lambda>p. store st1 (snd p)) sl) (kvals st1 @ map (derived st1) sl)"
    by simp_all
  have mem: "\<And>p. p \<in> set sl \<Longrightarrow> fst p \<in> set (knowledge st1) \<and> snd p \<in> set (knowledge st1)
      \<and> subset_pair st1 p"
    by (auto simp add: sl_def dest: permutations2_mem)
  have dist: "distinct (kvals st1)" and sub: "set (kvals st1) = set (kvals st)"
    unfolding st1_def by (rule remove_same_sentence_props)+
  have V: "V \<subseteq> set (kvals st1)" "V \<noteq> {}" "finite V"
    using mem ne by (auto simp add: V_def kvals_def)
  let ?K = "mset (kvals st1)" and ?D = "mset (map (derived st1) sl)"
  let ?L = "mset (map (\<lambda>p. store st1 (snd p)) sl)"
  have VL: "mset_set V \<subseteq># ?L"
    using mset_set_set_mset_msubset [of ?L] by (simp add: V_def)
  have VK: "mset_set V \<subseteq># ?K"
    using subset_imp_msubset_mset_set [OF V(1)] dist by (simp add: mset_set_set)
  have "mset (kvals st3) = ?K + ?D - ?L"
    by (simp add: k mset_fold_remove1)
  also have "\<dots> \<subseteq># ?K + ?D - mset_set V"
    using VL by (rule mset_diff_antimono)
  also have "?K + ?D - mset_set V = (?K - mset_set V) + ?D"
    using VK by (rule mset_add_diff_swap)
  finally have "image_mset sz (mset (kvals st3)) \<subseteq>#
      image_mset sz (?K - mset_set V) + image_mset sz ?D"
    by (metis image_mset_subseteq_mono image_mset_union)
  moreover have "(image_mset sz (?K - mset_set V) + image_mset sz ?D,
      image_mset sz (?K - mset_set V) + image_mset sz (mset_set V)) \<in> mult less_than"
  proof (rule one_step_implies_mult)
    from V show "image_mset sz (mset_set V) \<noteq> {#}" by (simp add: mset_set_empty_iff)
    show "\<forall>k \<in># image_mset sz ?D. \<exists>j \<in># image_mset sz (mset_set V). (k, j) \<in> less_than"
    proof
      fix k assume "k \<in># image_mset sz ?D"
      then obtain p where p: "p \<in> set sl" "k = sz (derived st1 p)" by auto
      from mem [OF p(1)] have "store st1 (fst p) \<in> set (kvals st)"
        unfolding sub [symmetric] by (simp add: kvals_def)
      with assms(2) have "cells (store st1 (fst p)) \<noteq> {||}"
        by (auto simp add: has_empty_def)
      with mem [OF p(1)] have "sz (derived st1 p) < sz (store st1 (snd p))"
        unfolding sz_def by (intro derived_smaller) simp_all
      moreover from p(1) V(3) have "sz (store st1 (snd p)) \<in># image_mset sz (mset_set V)"
        by (auto simp add: V_def)
      ultimately show "\<exists>j \<in># image_mset sz (mset_set V). (k, j) \<in> less_than"
        using p(2) by auto
    qed
  qed
  moreover have "image_mset sz (?K - mset_set V) + image_mset sz (mset_set V) = image_mset sz ?K"
    using VK by (metis image_mset_union subset_mset.diff_add)
  ultimately have "(sizes st3, sizes st1) \<in> mult less_than"
    unfolding sizes_def sz_def by (metis mult_subset_left)
  moreover have "sizes_le st1 st"
    unfolding st1_def
    by (rule sizes_le_sub) (rule mset_kvals_remove_same_sentence)
  ultimately show ?thesis
    using trans_mult [OF trans_less_than] unfolding sizes_le_def by (auto dest: transD)
qed

termination extract_from_problem
proof (relation "inv_image (less_than <*lex*> mult less_than)
         (\<lambda>st. (if has_empty st then 1 else 0 :: nat, sizes st))")
  show "wf (inv_image (less_than <*lex*> mult less_than)
         (\<lambda>st. (if has_empty st then 1 else 0 :: nat, sizes st)))"
    by (intro wf_inv_image wf_lex_prod wf_less_than wf_mult)
next
  fix st :: ai and x st3 flag st4
  assume "extract_round st = Some x" "(st3, flag) = x" "flag" "mark_safe_and_mine st3 = Some st4"
  then have r: "extract_round st = Some (st3, True)" by auto
  note m = mark_safe_and_mine_sizes [OF \<open>mark_safe_and_mine st3 = Some st4\<close>]
  show "(st4, st) \<in> inv_image (less_than <*lex*> mult less_than)
         (\<lambda>st. (if has_empty st then 1 else 0 :: nat, sizes st))"
  proof (cases "has_empty st")
    case True
    with m(2) show ?thesis by simp
  next
    case False
    from extract_round_decreases [OF r False] m(1)
    have "(sizes st4, sizes st) \<in> mult less_than"
      unfolding sizes_le_def by (rule mult_refl_left [rotated])
    with False m(2) show ?thesis by simp
  qed
qed

declare extract_from_problem.simps [simp del]

subsection \<open>Both procedures return, and what they return is a fixpoint\<close>

lemma for_each_resolve_step_flag:
  "for_each resolve_step rs (st, True) = Some (st', flag') \<Longrightarrow> flag'"
proof (induction rs arbitrary: st)
  case Nil
  then show ?case by simp
next
  case (Cons r rs)
  from Cons.prems obtain st1 flag1 where
    s: "resolve_step (st, True) r = Some (st1, flag1)"
    and f: "for_each resolve_step rs (st1, flag1) = Some (st', flag')"
    by (auto split: bind_splits)
  from s have flag1 by (cases rule: resolve_step_cases) simp_all
  with f Cons.IH show ?case by simp
qed

lemma for_each_resolve_step_unresolved:
  "\<forall>r \<in> set rs. \<not> resolvable (store st r) \<Longrightarrow>
   for_each resolve_step rs (st, flag) = Some (st, flag)"
  by (induction rs) (simp_all add: resolve_step_unresolved)

lemma for_each_resolve_step_False:
  "for_each resolve_step rs (st, False) = Some (st', False) \<Longrightarrow>
     st' = st \<and> (\<forall>r \<in> set rs. \<not> resolvable (store st r))"
proof (induction rs)
  case Nil
  then show ?case by simp
next
  case (Cons r rs)
  from Cons.prems obtain st1 flag1 where
    s: "resolve_step (st, False) r = Some (st1, flag1)"
    and f: "for_each resolve_step rs (st1, flag1) = Some (st', False)"
    by (auto split: bind_splits)
  from s show ?case
  proof (cases rule: resolve_step_cases)
    case (resolved st2)
    with f have "for_each resolve_step rs (st1, True) = Some (st', False)" by simp
    from for_each_resolve_step_flag [OF this] show ?thesis by simp
  next
    case unresolved
    with f Cons.IH show ?thesis by simp
  qed
qed

lemma resolve_loop_unresolved:
  "resolve_loop st = Some st' \<Longrightarrow> \<forall>r \<in> set (knowledge st'). \<not> resolvable (store st' r)"
proof (induction st rule: resolve_loop.induct)
  case (1 st)
  from "1.prems" obtain st1 flag1 where
    p: "for_each resolve_step (knowledge st) (st, False) = Some (st1, flag1)"
    and q: "(if flag1 then resolve_loop st1 else Some st1) = Some st'"
    by (subst (asm) resolve_loop.simps) (auto split: bind_splits)
  show ?case
  proof (cases flag1)
    case True
    with q "1.IH" [OF p refl] show ?thesis by simp
  next
    case False
    with q p for_each_resolve_step_False [of "knowledge st" st st'] show ?thesis by simp
  qed
qed

lemma mark_safe_and_mine_settled:
  assumes "mark_safe_and_mine st = Some st'"
  shows "settled st'"
proof -
  from assms obtain st1 where r: "resolve_loop st = Some st1"
    and st': "st' = st1\<lparr>knowledge := filter (\<lambda>r. cells (store st1 r) \<noteq> {||}) (knowledge st1)\<rparr>"
    by (auto simp add: mark_safe_and_mine_eq split: bind_splits)
  from resolve_loop_unresolved [OF r] show ?thesis
    by (simp add: st' settled_def kvals_def list_all_iff)
qed

lemma mark_safe_and_mine_fixpoint:
  assumes "settled st"
  shows "mark_safe_and_mine st = Some st"
proof -
  from assms have u: "\<forall>r \<in> set (knowledge st). \<not> resolvable (store st r)"
    and e: "\<forall>r \<in> set (knowledge st). cells (store st r) \<noteq> {||}"
    by (simp_all add: settled_def kvals_def list_all_iff)
  from for_each_resolve_step_unresolved [OF u]
  have "resolve_loop st = Some st"
    by (subst resolve_loop.simps) simp
  moreover from e have "filter (\<lambda>r. cells (store st r) \<noteq> {||}) (knowledge st) = knowledge st"
    by simp
  ultimately show ?thesis by (simp add: mark_safe_and_mine_eq)
qed

lemma settled_shrink:
  "settled st \<Longrightarrow> set ks \<subseteq> set (knowledge st) \<Longrightarrow> settled (st\<lparr>knowledge := ks\<rparr>)"
  by (auto simp add: settled_def kvals_def list_all_iff)

lemma extract_round_no_flag:
  assumes "extract_round st = Some (st3, False)"
  shows "st3 = remove_same_sentence st"
    and "filter (subset_pair st3) (permutations2 (knowledge st3)) = []"
proof -
  define st1 where "st1 = remove_same_sentence st"
  define sl where "sl = filter (subset_pair st1) (permutations2 (knowledge st1))"
  from assms have "sl = []"
    by (auto simp add: extract_round_def Let_def fold_subset_step split: bind_splits
        simp flip: st1_def sl_def)
  with assms have "st3 = st1"
    by (simp add: extract_round_def Let_def fold_subset_step flip: st1_def sl_def)
  with \<open>sl = []\<close> show "st3 = remove_same_sentence st"
    and "filter (subset_pair st3) (permutations2 (knowledge st3)) = []"
    by (simp_all add: st1_def sl_def)
qed

lemma extract_round_fixpoint:
  assumes "extract_round st = Some (st3, False)"
  shows "extract_round st3 = Some (st3, False)"
proof -
  note n = extract_round_no_flag [OF assms]
  have "distinct (kvals st3)"
    unfolding n(1) by (rule remove_same_sentence_props)
  then have "remove_same_sentence st3 = st3"
    by (rule remove_same_sentence_distinct)
  with n(2) show ?thesis
    by (simp add: extract_round_def Let_def fold_subset_step)
qed

lemma extract_from_problem_Some: "\<exists>st'. extract_from_problem st = Some st'"
proof (induction st rule: extract_from_problem.induct)
  case (1 st)
  obtain st3 flag where r: "extract_round st = Some (st3, flag)"
    by (rule extract_round_Some)
  show ?case
  proof (cases flag)
    case True
    from mark_safe_and_mine_Some obtain st4 where m: "mark_safe_and_mine st3 = Some st4" by blast
    from "1.IH" [OF r refl True m] r True m show ?thesis
      by (subst extract_from_problem.simps) simp
  next
    case False
    with r show ?thesis
      by (subst extract_from_problem.simps) simp
  qed
qed

lemma extract_from_problem_cases:
  assumes "extract_from_problem st = Some st'"
  obtains (stop) "extract_round st = Some (st', False)"
  | (continue) st3 st4 where "extract_round st = Some (st3, True)"
      "mark_safe_and_mine st3 = Some st4" "extract_from_problem st4 = Some st'"
proof -
  from assms obtain st3 flag where r: "extract_round st = Some (st3, flag)"
    and q: "(if flag then do { st4 \<leftarrow> mark_safe_and_mine st3; extract_from_problem st4 }
             else Some st3) = Some st'"
    by (subst (asm) extract_from_problem.simps) (auto split: bind_splits)
  show ?thesis
  proof (cases flag)
    case True
    with q obtain st4 where "mark_safe_and_mine st3 = Some st4" "extract_from_problem st4 = Some st'"
      by (auto split: bind_splits)
    with r True show ?thesis by (auto intro: continue)
  next
    case False
    with q r show ?thesis by (auto intro: stop)
  qed
qed

lemma extract_from_problem_fixpoint:
  "extract_from_problem st = Some st' \<Longrightarrow> extract_round st' = Some (st', False)"
proof (induction st rule: extract_from_problem.induct)
  case (1 st)
  from "1.prems" show ?case
  proof (cases rule: extract_from_problem_cases)
    case stop
    then show ?thesis by (rule extract_round_fixpoint)
  next
    case (continue st3 st4)
    from "1.IH" [OF continue(1) refl _ continue(2)] continue(3) show ?thesis by simp
  qed
qed

lemma extract_from_problem_settled:
  "extract_from_problem st = Some st' \<Longrightarrow> settled st \<Longrightarrow> settled st'"
proof (induction st rule: extract_from_problem.induct)
  case (1 st)
  from "1.prems"(1) show ?case
  proof (cases rule: extract_from_problem_cases)
    case stop
    from extract_round_no_flag(1) [OF stop] "1.prems"(2) show ?thesis
      by (simp add: remove_same_sentence_eq settled_shrink
          set_mp [OF remove_same_sentence_props(3) [unfolded remove_same_sentence_eq]] subsetI)
  next
    case (continue st3 st4)
    from "1.IH" [OF continue(1) refl _ continue(2)] continue(3)
      mark_safe_and_mine_settled [OF continue(2)] show ?thesis by simp
  qed
qed

lemma add_knowledge_Some: "\<exists>st'. add_knowledge st c n = Some st'"
  using mark_safe_and_mine_Some extract_from_problem_Some
  by (simp add: add_knowledge_def Let_def split: bind_splits)

subsection \<open>The subset rule on the example of the specification\<close>

lemma permutations2_two: "permutations2 [x, y] = [(x, y), (y, x)]"
  by (simp add: permutations2_def upt_rec)

lemma kvals_two:
  assumes "kvals st = [x, y]"
  obtains r0 r1 where "knowledge st = [r0, r1]" "store st r0 = x" "store st r1 = y"
  using assms by (auto simp add: kvals_def map_eq_Cons_conv)

lemma example_sentences:
  "sentence_A \<noteq> sentence_B" "sentence_A \<noteq> sentence_D" "sentence_B \<noteq> sentence_D"
  "cells sentence_A |\<subseteq>| cells sentence_B" "\<not> cells sentence_B |\<subseteq>| cells sentence_A"
  "\<not> cells sentence_A |\<subseteq>| cells sentence_D" "\<not> cells sentence_D |\<subseteq>| cells sentence_A"
  "cells sentence_B |-| cells sentence_A = cells sentence_D"
  "count sentence_B - count sentence_A = count sentence_D"
  "\<not> resolvable sentence_A" "\<not> resolvable sentence_D"
  "cells sentence_A \<noteq> {||}" "cells sentence_D \<noteq> {||}"
  by code_simp+

lemma subset_rule_first_round:
  assumes "kvals st = [sentence_A, sentence_B] \<or> kvals st = [sentence_B, sentence_A]"
  obtains st3 where "extract_round st = Some (st3, True)" "kvals st3 = [sentence_A, sentence_D]"
proof -
  from assms have d: "distinct (kvals st)"
    using example_sentences(1) by auto
  then have st1: "remove_same_sentence st = st" by (rule remove_same_sentence_distinct)
  have D: "Sentence (cells sentence_D) (count sentence_D) = sentence_D"
    by (simp add: Sentence_def)
  from assms show ?thesis
  proof
    assume k: "kvals st = [sentence_A, sentence_B]"
    then obtain r0 r1 where r: "knowledge st = [r0, r1]" "store st r0 = sentence_A"
      "store st r1 = sentence_B" by (rule kvals_two)
    then have sl: "filter (subset_pair st) (permutations2 (knowledge st)) = [(r0, r1)]"
      by (simp add: permutations2_two subset_pair_def example_sentences)
    obtain st3 where e: "extract_round st = Some (st3, [(r0, r1)] \<noteq> [])"
      and kv: "kvals st3 = fold remove1 (map (\<lambda>p. store st (snd p)) [(r0, r1)])
                 (kvals st @ map (derived st) [(r0, r1)])"
      using extract_round_Some [of st, unfolded st1 sl] by blast
    have "derived st (r0, r1) = sentence_D"
      by (simp add: derived_def r example_sentences D)
    with kv have "kvals st3 = [sentence_A, sentence_D]"
      by (simp add: k r example_sentences(1))
    with e show ?thesis by (intro that [of st3]) simp_all
  next
    assume k: "kvals st = [sentence_B, sentence_A]"
    then obtain r0 r1 where r: "knowledge st = [r0, r1]" "store st r0 = sentence_B"
      "store st r1 = sentence_A" by (rule kvals_two)
    then have sl: "filter (subset_pair st) (permutations2 (knowledge st)) = [(r1, r0)]"
      by (simp add: permutations2_two subset_pair_def example_sentences)
    obtain st3 where e: "extract_round st = Some (st3, [(r1, r0)] \<noteq> [])"
      and kv: "kvals st3 = fold remove1 (map (\<lambda>p. store st (snd p)) [(r1, r0)])
                 (kvals st @ map (derived st) [(r1, r0)])"
      using extract_round_Some [of st, unfolded st1 sl] by blast
    have "derived st (r1, r0) = sentence_D"
      by (simp add: derived_def r example_sentences D)
    with kv have "kvals st3 = [sentence_A, sentence_D]"
      by (simp add: k r example_sentences(1))
    with e show ?thesis by (intro that [of st3]) simp_all
  qed
qed

lemma subset_rule_second_round:
  assumes "kvals st = [sentence_A, sentence_D]"
  shows "extract_round st = Some (st, False)"
proof -
  from assms have "distinct (kvals st)"
    using example_sentences(2) by auto
  then have st1: "remove_same_sentence st = st" by (rule remove_same_sentence_distinct)
  from assms obtain r0 r1 where r: "knowledge st = [r0, r1]" "store st r0 = sentence_A"
      "store st r1 = sentence_D" by (rule kvals_two)
  then have "filter (subset_pair st) (permutations2 (knowledge st)) = []"
    by (simp add: permutations2_two subset_pair_def example_sentences)
  then show ?thesis
    by (simp add: extract_round_def Let_def fold_subset_step st1)
qed

text \<open>
  Claim C3. When the knowledge list holds exactly \<open>A = {(0,0),(0,1),(0,2)} = 1\<close> and
  \<open>B = {(0,0),(0,1),(0,2),(1,0),(1,1)} = 2\<close>, in either order, \<open>extract_from_problem\<close>
  returns with the knowledge list \<open>A\<close>, \<open>{(1,0),(1,1)} = 1\<close>: the derived sentence has
  been added and \<open>B\<close> removed.
\<close>

theorem subset_rule_example:
  assumes "kvals st = [sentence_A, sentence_B] \<or> kvals st = [sentence_B, sentence_A]"
  shows "\<exists>st'. extract_from_problem st = Some st' \<and>
           kvals st' = [sentence_A, sentence_D] \<and> sentence_B \<notin> set (kvals st')"
proof -
  from assms obtain st3 where r: "extract_round st = Some (st3, True)"
    and k: "kvals st3 = [sentence_A, sentence_D]" by (rule subset_rule_first_round)
  from k have "settled st3"
    by (simp add: settled_def example_sentences)
  then have m: "mark_safe_and_mine st3 = Some st3" by (rule mark_safe_and_mine_fixpoint)
  from subset_rule_second_round [OF k] have "extract_from_problem st3 = Some st3"
    by (subst extract_from_problem.simps) simp
  with r m have "extract_from_problem st = Some st3"
    by (subst extract_from_problem.simps) simp
  with k show ?thesis using example_sentences(1,3) by auto
qed

theorem subset_rule_example_witness:
  "kvals subset_example = [sentence_A, sentence_B] \<and>
   (\<exists>st'. extract_from_problem subset_example = Some st' \<and>
           kvals st' = [sentence_A, sentence_D] \<and> sentence_B \<notin> set (kvals st'))"
proof -
  have "kvals subset_example = [sentence_A, sentence_B]"
    by (simp add: subset_example_def) (simp add: init_def kvals_def)
  with subset_rule_example [of subset_example] show ?thesis by simp
qed

subsection \<open>Invariants of the inference engine\<close>

lemma closedI:
  assumes "\<And>s ks. I s \<Longrightarrow> set ks \<subseteq> set (knowledge s) \<Longrightarrow> I (s\<lparr>knowledge := ks\<rparr>)"
    and "\<And>s r c. I s \<Longrightarrow> int (fcard (cells (store s r))) = count (store s r) \<Longrightarrow>
                 c |\<in>| cells (store s r) \<Longrightarrow> Jm c"
    and "\<And>s r c. I s \<Longrightarrow> count (store s r) = 0 \<Longrightarrow> c |\<in>| cells (store s r) \<Longrightarrow> Js c"
    and "\<And>s c. I s \<Longrightarrow> Jm c \<Longrightarrow> I (mark_mine s c)"
    and "\<And>s c. I s \<Longrightarrow> Js c \<Longrightarrow> I (mark_safe s c)"
    and "\<And>s p. I s \<Longrightarrow> fst p \<in> set (knowledge s) \<Longrightarrow> snd p \<in> set (knowledge s) \<Longrightarrow>
               subset_pair s p \<Longrightarrow> I (knowledge_append s (derived s p))"
  shows "closed I Jm Js"
  unfolding closed_def using assms by blast

lemma closedD:
  assumes "closed I Jm Js"
  shows "\<And>s ks. I s \<Longrightarrow> set ks \<subseteq> set (knowledge s) \<Longrightarrow> I (s\<lparr>knowledge := ks\<rparr>)"
    and "\<And>s r c. I s \<Longrightarrow> int (fcard (cells (store s r))) = count (store s r) \<Longrightarrow>
                 c |\<in>| cells (store s r) \<Longrightarrow> Jm c"
    and "\<And>s r c. I s \<Longrightarrow> count (store s r) = 0 \<Longrightarrow> c |\<in>| cells (store s r) \<Longrightarrow> Js c"
    and "\<And>s c. I s \<Longrightarrow> Jm c \<Longrightarrow> I (mark_mine s c)"
    and "\<And>s c. I s \<Longrightarrow> Js c \<Longrightarrow> I (mark_safe s c)"
    and "\<And>s p. I s \<Longrightarrow> fst p \<in> set (knowledge s) \<Longrightarrow> snd p \<in> set (knowledge s) \<Longrightarrow>
               subset_pair s p \<Longrightarrow> I (knowledge_append s (derived s p))"
  using assms unfolding closed_def by blast+

lemma closed_fold_mark_mine:
  assumes "closed I Jm Js"
  shows "I st \<Longrightarrow> \<forall>c \<in> set cs. Jm c \<Longrightarrow> I (fold (\<lambda>c s. mark_mine s c) cs st)"
  by (induction cs arbitrary: st) (simp_all add: closedD(4) [OF assms])

lemma closed_fold_mark_safe:
  assumes "closed I Jm Js"
  shows "I st \<Longrightarrow> \<forall>c \<in> set cs. Js c \<Longrightarrow> I (fold (\<lambda>c s. mark_safe s c) cs st)"
  by (induction cs arbitrary: st) (simp_all add: closedD(5) [OF assms])

lemma known_mines_truthy:
  assumes "truthy (fst (known_mines s))"
  shows "int (fcard (cells s)) = count s" "fst (known_mines s) = Some (tuple (cells s))"
  using assms by (auto simp add: known_mines_def split: if_splits)

lemma known_safes_truthy:
  assumes "truthy (fst (known_safes s))"
  shows "count s = 0" "fst (known_safes s) = Some (tuple (cells s))"
  using assms by (auto simp add: known_safes_def split: if_splits)

lemma closed_knowledge_remove:
  assumes "closed I Jm Js" "I st" "knowledge_remove st r = Some st'"
  shows "I st'"
  using knowledge_remove_Some(1,5) [OF assms(3)] closedD(1) [OF assms(1,2)] by metis

lemma closed_resolve_step:
  assumes c: "closed I Jm Js" and I: "I st" and s: "resolve_step (st, flag) r = Some (st', flag')"
  shows "I st'"
  using s
proof (cases rule: resolve_step_cases)
  case (resolved st1)
  let ?ms = "fst (known_mines (store st r))" and ?ss = "fst (known_safes (store st r))"
  from closed_knowledge_remove [OF c I resolved(2)] have 1: "I st1" .
  have 2: "I (for_cells mark_mine ?ms st1)"
  proof (cases "truthy ?ms")
    case True
    from known_mines_truthy [OF True] closedD(2) [OF c I]
    have "\<forall>c \<in> set (tuple (cells (store st r))). Jm c" by auto
    with closed_fold_mark_mine [OF c 1] known_mines_truthy(2) [OF True] True
    show ?thesis by (simp add: for_cells_def)
  next
    case False
    with 1 show ?thesis by simp
  qed
  have jm: "truthy ?ss \<Longrightarrow> \<forall>c \<in> set (tuple (cells (store st r))). Js c"
    using known_safes_truthy(1) closedD(3) [OF c I] by auto
  have "I (for_cells mark_safe ?ss (for_cells mark_mine ?ms st1))"
  proof (cases "truthy ?ss")
    case True
    with closed_fold_mark_safe [OF c 2] known_safes_truthy(2) [OF True] jm
    show ?thesis by (simp add: for_cells_def)
  next
    case False
    with 2 show ?thesis by simp
  qed
  with resolved(4) show ?thesis by simp
next
  case unresolved
  with I show ?thesis by simp
qed

lemma closed_for_each_resolve_step:
  assumes "closed I Jm Js"
  shows "I st \<Longrightarrow> for_each resolve_step rs (st, flag) = Some (st', flag') \<Longrightarrow> I st'"
proof (induction rs arbitrary: st flag)
  case Nil
  then show ?case by simp
next
  case (Cons r rs)
  from Cons.prems(2) obtain st1 flag1 where
    s: "resolve_step (st, flag) r = Some (st1, flag1)"
    and f: "for_each resolve_step rs (st1, flag1) = Some (st', flag')"
    by (auto split: bind_splits)
  from closed_resolve_step [OF assms Cons.prems(1) s] f show ?case by (rule Cons.IH)
qed

lemma closed_resolve_loop:
  assumes "closed I Jm Js"
  shows "I st \<Longrightarrow> resolve_loop st = Some st' \<Longrightarrow> I st'"
proof (induction st rule: resolve_loop.induct)
  case (1 st)
  from "1.prems"(2) obtain st1 flag1 where
    p: "for_each resolve_step (knowledge st) (st, False) = Some (st1, flag1)"
    and q: "(if flag1 then resolve_loop st1 else Some st1) = Some st'"
    by (subst (asm) resolve_loop.simps) (auto split: bind_splits)
  from closed_for_each_resolve_step [OF assms "1.prems"(1) p] have I1: "I st1" .
  show ?case
  proof (cases flag1)
    case True
    with q "1.IH" [OF p refl _ I1] show ?thesis by simp
  next
    case False
    with q I1 show ?thesis by simp
  qed
qed

lemma closed_mark_safe_and_mine:
  assumes "closed I Jm Js" "I st" "mark_safe_and_mine st = Some st'"
  shows "I st'"
proof -
  from assms(3) obtain st1 where r: "resolve_loop st = Some st1"
    and st': "st' = st1\<lparr>knowledge := filter (\<lambda>r. cells (store st1 r) \<noteq> {||}) (knowledge st1)\<rparr>"
    by (auto simp add: mark_safe_and_mine_eq split: bind_splits)
  from closed_resolve_loop [OF assms(1,2) r] show ?thesis
    unfolding st' by (rule closedD(1) [OF assms(1)]) simp
qed

lemma closed_fold_derive_step:
  assumes "closed I Jm Js"
  shows "I st \<Longrightarrow>
     \<forall>p \<in> set sl. fst p \<in> set (knowledge st) \<and> snd p \<in> set (knowledge st) \<and> subset_pair st p \<Longrightarrow>
     I (fold derive_step sl st)"
proof (induction sl arbitrary: st)
  case Nil
  then show ?case by simp
next
  case (Cons p sl)
  let ?st = "derive_step p st"
  from Cons.prems have "I ?st"
    by (simp add: derive_step_eq closedD(6) [OF assms])
  moreover have keep: "\<forall>r \<in> set (knowledge st). store ?st r = store st r"
    using new_ref_fresh [of st] by (auto simp add: derive_step_eq)
  with Cons.prems(2)
  have "\<forall>q \<in> set sl. fst q \<in> set (knowledge ?st) \<and> snd q \<in> set (knowledge ?st) \<and> subset_pair ?st q"
    by (auto simp add: derive_step_eq subset_pair_def)
  ultimately show ?case by (simp add: Cons.IH)
qed

lemma extract_round_struct:
  fixes st :: ai
  defines "st1 \<equiv> remove_same_sentence st"
  defines "sl \<equiv> filter (subset_pair st1) (permutations2 (knowledge st1))"
  obtains ks where
    "extract_round st = Some ((fold derive_step sl st1)\<lparr>knowledge := ks\<rparr>, sl \<noteq> [])"
    "set ks \<subseteq> set (knowledge (fold derive_step sl st1))"
proof -
  from for_each_discard_step [of "map snd sl" "fold derive_step sl st1"] obtain ks where
    f: "for_each discard_step (map snd sl) (fold derive_step sl st1)
          = Some ((fold derive_step sl st1)\<lparr>knowledge := ks\<rparr>)"
      "set ks \<subseteq> set (knowledge (fold derive_step sl st1))" by blast
  have "extract_round st = Some ((fold derive_step sl st1)\<lparr>knowledge := ks\<rparr>, sl \<noteq> [])"
    using f(1) by (simp add: extract_round_def Let_def fold_subset_step flip: st1_def sl_def)
  then show ?thesis using f(2) by (rule that)
qed

lemma closed_extract_round:
  assumes c: "closed I Jm Js" and I: "I st" and e: "extract_round st = Some (st3, flag)"
  shows "I st3"
proof -
  define st1 where "st1 = remove_same_sentence st"
  define sl where "sl = filter (subset_pair st1) (permutations2 (knowledge st1))"
  obtain ks where k: "extract_round st = Some ((fold derive_step sl st1)\<lparr>knowledge := ks\<rparr>, sl \<noteq> [])"
    "set ks \<subseteq> set (knowledge (fold derive_step sl st1))"
    unfolding st1_def sl_def by (rule extract_round_struct)
  have "I st1"
    unfolding st1_def remove_same_sentence_eq
    by (rule closedD(1) [OF c I])
      (use remove_same_sentence_props(3) [of st] in \<open>simp add: remove_same_sentence_eq\<close>)
  moreover have "\<forall>p \<in> set sl. fst p \<in> set (knowledge st1) \<and> snd p \<in> set (knowledge st1)
      \<and> subset_pair st1 p"
    by (auto simp add: sl_def dest: permutations2_mem)
  ultimately have "I (fold derive_step sl st1)"
    by (rule closed_fold_derive_step [OF c])
  from closedD(1) [OF c this k(2)] k(1) e show ?thesis by simp
qed

lemma closed_extract_from_problem:
  assumes "closed I Jm Js"
  shows "I st \<Longrightarrow> extract_from_problem st = Some st' \<Longrightarrow> I st'"
proof (induction st rule: extract_from_problem.induct)
  case (1 st)
  from "1.prems"(2) show ?case
  proof (cases rule: extract_from_problem_cases)
    case stop
    with closed_extract_round [OF assms "1.prems"(1)] show ?thesis by blast
  next
    case (continue st3 st4)
    from closed_extract_round [OF assms "1.prems"(1) continue(1)] have "I st3" .
    from closed_mark_safe_and_mine [OF assms this continue(2)] have "I st4" .
    from "1.IH" [OF continue(1) refl _ continue(2) this continue(3)] show ?thesis by simp
  qed
qed

lemma closed_add_knowledge:
  assumes "closed I Jm Js"
    and "I (add_neighbour_mines_knowledge
              (mark_safe (st\<lparr>moves_made := finsert c (moves_made st)\<rparr>) c) c n)"
    and "add_knowledge st c n = Some st'"
  shows "I st'"
proof -
  from assms(3) obtain st4 where m: "mark_safe_and_mine
      (add_neighbour_mines_knowledge (mark_safe (st\<lparr>moves_made := finsert c (moves_made st)\<rparr>) c) c n)
        = Some st4"
    and e: "extract_from_problem st4 = Some st'"
    by (auto simp add: add_knowledge_def Let_def split: bind_splits)
  from closed_mark_safe_and_mine [OF assms(1,2) m] e show ?thesis
    by (rule closed_extract_from_problem [OF assms(1)])
qed

lemma run_induct:
  assumes "run st obs = Some st'" "I st"
    and "\<And>s c n s'. I s \<Longrightarrow> (c, n) \<in> set obs \<Longrightarrow> add_knowledge s c n = Some s' \<Longrightarrow> I s'"
  shows "I st'"
  using assms
proof (induction obs arbitrary: st)
  case Nil
  then show ?case by simp
next
  case (Cons ob obs)
  obtain c n where ob: "ob = (c, n)" by (cases ob)
  with Cons.prems(1) obtain st1 where a: "add_knowledge st c n = Some st1"
    and r: "run st1 obs = Some st'" by (auto split: bind_splits)
  from Cons.prems(3) [OF Cons.prems(2) _ a] ob have "I st1" by simp
  with r show ?case
  proof (rule Cons.IH)
    fix s c n s'
    assume "I s" "(c, n) \<in> set obs" "add_knowledge s c n = Some s'"
    then show "I s'" using Cons.prems(3) [of s c n s'] by simp
  qed
qed

lemma run_Some: "\<exists>st'. run st obs = Some st'"
proof (induction obs arbitrary: st)
  case Nil
  show ?case by simp
next
  case (Cons ob obs)
  obtain c n where ob: "ob = (c, n)" by (cases ob)
  from add_knowledge_Some obtain st1 where "add_knowledge st c n = Some st1" by blast
  with Cons [of st1] ob show ?case by simp
qed

subsection \<open>The sentence of a new observation\<close>

lemma fold_neighbour_step:
  "fold (neighbour_step st) xs (cnt, ncs) =
     (cnt - int (length (filter (mine_neighbour st) xs)), ncs @ filter (unknown_neighbour st) xs)"
  by (induction xs arbitrary: cnt ncs)
    (auto simp add: neighbour_step_def unknown_neighbour_def mine_neighbour_def)

lemma add_neighbour_mines_knowledge_eq:
  "add_neighbour_mines_knowledge st c n =
     knowledge_append st
       (Sentence (fset_of_list (filter (unknown_neighbour st) (block c)))
                 (n - int (length (filter (mine_neighbour st) (block c)))))"
  by (simp add: add_neighbour_mines_knowledge_def fold_neighbour_step)

lemma observe_fields [simp]:
  "height (mark_safe (st\<lparr>moves_made := finsert c (moves_made st)\<rparr>) c) = height st"
  "width (mark_safe (st\<lparr>moves_made := finsert c (moves_made st)\<rparr>) c) = width st"
  "mines (mark_safe (st\<lparr>moves_made := finsert c (moves_made st)\<rparr>) c) = mines st"
  "safes (mark_safe (st\<lparr>moves_made := finsert c (moves_made st)\<rparr>) c) = finsert c (safes st)"
  "moves_made (mark_safe (st\<lparr>moves_made := finsert c (moves_made st)\<rparr>) c) = finsert c (moves_made st)"
  "knowledge (mark_safe (st\<lparr>moves_made := finsert c (moves_made st)\<rparr>) c) = knowledge st"
  by simp_all

subsection \<open>Cells stay on the board\<close>

lemma cells_sentence_mark [simp]:
  "cells (sentence_mark_mine s c) = cells s |-| {|c|}"
  "cells (sentence_mark_safe s c) = cells s |-| {|c|}"
  by (auto simp add: sentence_mark_mine_def sentence_mark_safe_def)

lemma closed_bounded: "closed (bounded h w) (in_bounds h w) (\<lambda>_. True)"
proof (rule closedI)
  fix s ks assume "bounded h w s"
  then show "bounded h w (s\<lparr>knowledge := ks\<rparr>)" by (simp add: bounded_def)
next
  fix s r c assume "bounded h w s" "c |\<in>| cells (store s r)"
  then show "in_bounds h w c" unfolding bounded_def by blast
next
  fix s c assume "bounded h w s" "in_bounds h w c"
  then show "bounded h w (mark_mine s c)"
    by (auto simp add: bounded_def store_mark_mine)
next
  fix s c assume "bounded h w s"
  then show "bounded h w (mark_safe s c)"
    by (auto simp add: bounded_def store_mark_safe)
next
  fix s and p :: "ref \<times> ref" assume "bounded h w s"
  then show "bounded h w (knowledge_append s (derived s p))"
    by (auto simp add: bounded_def derived_def Sentence_def)
qed simp

lemma bounded_observe:
  assumes "bounded h w st"
  shows "bounded h w (add_neighbour_mines_knowledge
            (mark_safe (st\<lparr>moves_made := finsert c (moves_made st)\<rparr>) c) c n)"
proof -
  let ?st = "mark_safe (st\<lparr>moves_made := finsert c (moves_made st)\<rparr>) c"
  from assms have "bounded h w (st\<lparr>moves_made := finsert c (moves_made st)\<rparr>)"
    by (simp add: bounded_def)
  then have b: "bounded h w ?st"
    by (rule closedD(5) [OF closed_bounded]) simp
  then show ?thesis
    by (auto simp add: add_neighbour_mines_knowledge_eq bounded_def Sentence_def
        unknown_neighbour_def fset_of_list.rep_eq)
qed

lemma bounded_add_knowledge:
  "bounded h w st \<Longrightarrow> add_knowledge st c n = Some st' \<Longrightarrow> bounded h w st'"
  by (rule closed_add_knowledge [OF closed_bounded bounded_observe])

lemma bounded_init: "bounded h w (init h w)"
  by (simp add: bounded_def init_def Sentence_def)

text \<open>
  Claim C10. Starting from a freshly constructed \<open>MinesweeperAI\<close> of any height and width,
  after any sequence of \<open>add_knowledge\<close> calls with arbitrary cells and counts, every
  cell of every sentence of the knowledge list lies on the board, and so does every cell
  of \<open>mines\<close>.
\<close>

theorem cells_in_bounds:
  assumes "run (init h w) obs = Some st"
  shows "(\<forall>s \<in> set (kvals st). \<forall>c. c |\<in>| cells s \<longrightarrow> in_bounds h w c) \<and>
         (\<forall>c. c |\<in>| mines st \<longrightarrow> in_bounds h w c) \<and> height st = h \<and> width st = w"
proof -
  from assms bounded_init have "bounded h w st"
    by (rule run_induct) (rule bounded_add_knowledge)
  then show ?thesis by (auto simp add: bounded_def kvals_def)
qed

subsection \<open>The knowledge list is normalized\<close>

lemma purgedI:
  "(\<And>r. r \<in> set (knowledge st) \<Longrightarrow> cells (store st r) |\<inter>| (mines st |\<union>| safes st) = {||})
     \<Longrightarrow> purged st"
  by (simp add: purged_def kvals_def list_all_iff)

lemma purgedD:
  "purged st \<Longrightarrow> r \<in> set (knowledge st) \<Longrightarrow> cells (store st r) |\<inter>| (mines st |\<union>| safes st) = {||}"
  by (simp add: purged_def kvals_def list_all_iff)

lemma closed_purged: "closed purged (\<lambda>_. True) (\<lambda>_. True)"
proof (rule closedI)
  fix s ks assume "purged s" "set ks \<subseteq> set (knowledge s)"
  then show "purged (s\<lparr>knowledge := ks\<rparr>)"
    by (auto simp add: purged_def kvals_def list_all_iff)
next
  fix s c assume p: "purged s"
  show "purged (mark_mine s c)"
  proof (rule purgedI)
    fix r assume "r \<in> set (knowledge (mark_mine s c))"
    then have r: "r \<in> set (knowledge s)" by simp
    from purgedD [OF p r] r
    show "cells (store (mark_mine s c) r) |\<inter>| (mines (mark_mine s c) |\<union>| safes (mark_mine s c)) = {||}"
      by (auto simp add: store_mark_mine)
  qed
next
  fix s c assume p: "purged s"
  show "purged (mark_safe s c)"
  proof (rule purgedI)
    fix r assume "r \<in> set (knowledge (mark_safe s c))"
    then have r: "r \<in> set (knowledge s)" by simp
    from purgedD [OF p r] r
    show "cells (store (mark_safe s c) r) |\<inter>| (mines (mark_safe s c) |\<union>| safes (mark_safe s c)) = {||}"
      by (auto simp add: store_mark_safe)
  qed
next
  fix s and p :: "ref \<times> ref" assume p: "purged s" and k: "snd p \<in> set (knowledge s)"
  show "purged (knowledge_append s (derived s p))"
  proof (rule purgedI)
    fix r assume "r \<in> set (knowledge (knowledge_append s (derived s p)))"
    then consider "r \<in> set (knowledge s)" | "r = new_ref s" by auto
    then show "cells (store (knowledge_append s (derived s p)) r) |\<inter>|
        (mines (knowledge_append s (derived s p)) |\<union>| safes (knowledge_append s (derived s p))) = {||}"
    proof cases
      case 1
      with new_ref_fresh [of s] have "r \<noteq> new_ref s" by auto
      with purgedD [OF p 1] show ?thesis by simp
    next
      case 2
      with purgedD [OF p k] show ?thesis
        by (auto simp add: derived_def Sentence_def)
    qed
  qed
qed simp_all

lemma purged_observe:
  assumes "purged st"
  shows "purged (add_neighbour_mines_knowledge
            (mark_safe (st\<lparr>moves_made := finsert c (moves_made st)\<rparr>) c) c n)"
proof -
  let ?st = "mark_safe (st\<lparr>moves_made := finsert c (moves_made st)\<rparr>) c"
  let ?s = "Sentence (fset_of_list (filter (unknown_neighbour ?st) (block c)))
              (n - int (length (filter (mine_neighbour ?st) (block c))))"
  from assms have "purged (st\<lparr>moves_made := finsert c (moves_made st)\<rparr>)"
    by (simp add: purged_def kvals_def)
  then have p: "purged ?st"
    by (rule closedD(5) [OF closed_purged]) simp
  have "purged (knowledge_append ?st ?s)"
  proof (rule purgedI)
    fix r assume "r \<in> set (knowledge (knowledge_append ?st ?s))"
    then consider "r \<in> set (knowledge ?st)" | "r = new_ref ?st" by auto
    then show "cells (store (knowledge_append ?st ?s) r) |\<inter>|
        (mines (knowledge_append ?st ?s) |\<union>| safes (knowledge_append ?st ?s)) = {||}"
    proof cases
      case 1
      with new_ref_fresh [of ?st] have "r \<noteq> new_ref ?st" by auto
      with purgedD [OF p 1] show ?thesis by simp
    next
      case 2
      then show ?thesis
        by (auto simp add: Sentence_def unknown_neighbour_def fset_of_list.rep_eq)
    qed
  qed
  then show ?thesis by (simp only: add_neighbour_mines_knowledge_eq)
qed

lemma purged_add_knowledge:
  "purged st \<Longrightarrow> add_knowledge st c n = Some st' \<Longrightarrow> purged st'"
  by (rule closed_add_knowledge [OF closed_purged purged_observe])

lemma add_knowledge_settled:
  assumes "add_knowledge st c n = Some st'"
  shows "settled st'" "distinct (kvals st')"
proof -
  from assms obtain st4 where m: "mark_safe_and_mine
      (add_neighbour_mines_knowledge (mark_safe (st\<lparr>moves_made := finsert c (moves_made st)\<rparr>) c) c n)
        = Some st4"
    and e: "extract_from_problem st4 = Some st'"
    by (auto simp add: add_knowledge_def Let_def split: bind_splits)
  from extract_from_problem_settled [OF e mark_safe_and_mine_settled [OF m]]
  show "settled st'" .
  from extract_round_no_flag(1) [OF extract_from_problem_fixpoint [OF e]]
  have "st' = remove_same_sentence st'" .
  then show "distinct (kvals st')"
    using remove_same_sentence_props(1) [of st'] by simp
qed

text \<open>
  Claim C4. After every completed \<open>add_knowledge\<close> call of a game the knowledge list is
  normalized: no sentence holds a cell of \<open>mines\<close> or \<open>safes\<close>, no sentence has an
  empty cell set, and no two sentences are equal. This holds for arbitrary observations,
  so in particular for those of a consistent board.
\<close>

theorem knowledge_normalized:
  assumes "run (init h w) obs = Some st"
  shows "normalized st"
proof -
  have "normalized (init h w)"
    by (simp add: normalized_def init_def kvals_def)
  with assms show ?thesis
  proof (rule run_induct)
    fix s c n s'
    assume "normalized s" and a: "add_knowledge s c n = Some s'"
    then have "purged s" by (simp add: normalized_def purged_def list_all_iff)
    from purged_add_knowledge [OF this a] add_knowledge_settled [OF a]
    show "normalized s'"
      by (simp add: normalized_def purged_def settled_def list_all_iff)
  qed
qed

subsection \<open>Soundness with respect to a board\<close>

lemma sound_all_mines:
  assumes "sound M s" "int (fcard (cells s)) = count s" "c |\<in>| cells s"
  shows "c |\<in>| M"
proof -
  from assms(1,2) have "fcard (cells s) \<le> fcard (cells s |\<inter>| M)" by (simp add: sound_def)
  then have "cells s |\<inter>| M = cells s" by (intro fcard_seteq) simp_all
  with assms(3) show ?thesis by auto
qed

lemma sound_no_mines:
  assumes "sound M s" "count s = 0" "c |\<in>| cells s"
  shows "c |\<notin>| M"
proof -
  from assms(1,2) have "fcard (cells s |\<inter>| M) = 0" by (simp add: sound_def)
  then have "cells s |\<inter>| M = {||}" by simp
  with assms(3) show ?thesis by auto
qed

lemma sound_mark_mine:
  assumes "sound M s" "c |\<in>| M"
  shows "sound M (sentence_mark_mine s c)"
proof (cases "c |\<in>| cells s")
  case True
  with assms(2) have "c |\<in>| cells s |\<inter>| M" by simp
  then have "Suc (fcard ((cells s |\<inter>| M) |-| {|c|})) = fcard (cells s |\<inter>| M)"
    by (rule fcard_Suc_fminus1)
  moreover have "(cells s |-| {|c|}) |\<inter>| M = (cells s |\<inter>| M) |-| {|c|}" by auto
  ultimately show ?thesis
    using assms(1) True by (simp add: sound_def sentence_mark_mine_def)
next
  case False
  with assms(1) show ?thesis by (simp add: sentence_mark_mine_def)
qed

lemma sound_mark_safe:
  assumes "sound M s" "c |\<notin>| M"
  shows "sound M (sentence_mark_safe s c)"
proof -
  from assms(2) have "(cells s |-| {|c|}) |\<inter>| M = cells s |\<inter>| M" by auto
  with assms(1) show ?thesis
    by (simp add: sound_def sentence_mark_safe_def)
qed

lemma sound_derived:
  assumes "sound M (store st (fst p))" "sound M (store st (snd p))" "subset_pair st p"
  shows "sound M (derived st p)"
proof -
  let ?a = "cells (store st (fst p))" and ?b = "cells (store st (snd p))"
  from assms(3) have sub: "?a |\<inter>| M |\<subseteq>| ?b |\<inter>| M"
    by (auto simp add: subset_pair_def)
  have "(?b |-| ?a) |\<inter>| M = (?b |\<inter>| M) |-| (?a |\<inter>| M)" by auto
  then have "fcard ((?b |-| ?a) |\<inter>| M) = fcard (?b |\<inter>| M) - fcard (?a |\<inter>| M)"
    using fcard_funion_fsubset [OF sub] by simp
  moreover from sub have "fcard (?a |\<inter>| M) \<le> fcard (?b |\<inter>| M)" by (rule fcard_mono)
  ultimately show ?thesis
    using assms(1,2) by (simp add: sound_def derived_def Sentence_def)
qed

lemma closed_consistent: "closed (consistent h w M) (\<lambda>c. c |\<in>| M) (\<lambda>c. c |\<notin>| M)"
proof (rule closedI)
  fix s ks assume "consistent h w M s"
  then show "consistent h w M (s\<lparr>knowledge := ks\<rparr>)" by (simp add: consistent_def)
next
  fix s r c
  assume "consistent h w M s" "int (fcard (cells (store s r))) = count (store s r)"
    "c |\<in>| cells (store s r)"
  then show "c |\<in>| M" by (auto simp add: consistent_def intro: sound_all_mines)
next
  fix s r c
  assume "consistent h w M s" "count (store s r) = 0" "c |\<in>| cells (store s r)"
  then show "c |\<notin>| M" by (auto simp add: consistent_def dest: sound_no_mines)
next
  fix s c assume "consistent h w M s" "c |\<in>| M"
  then show "consistent h w M (mark_mine s c)"
    by (auto simp add: consistent_def store_mark_mine sound_mark_mine)
next
  fix s c assume "consistent h w M s" "c |\<notin>| M"
  then show "consistent h w M (mark_safe s c)"
    by (auto simp add: consistent_def store_mark_safe sound_mark_safe)
next
  fix s and p :: "ref \<times> ref"
  assume "consistent h w M s" "subset_pair s p"
  then show "consistent h w M (knowledge_append s (derived s p))"
    by (auto simp add: consistent_def sound_derived)
qed

lemma upto_three: "[i - 1 .. i + 1] = [i - 1, i, i + 1]"
  by (simp add: upto_rec1)

lemma distinct_block: "distinct (block c)"
  by (cases c) (simp add: block_def upto_three)

lemma fold_count:
  "fold (\<lambda>x cnt. if x = c then cnt
                 else if in_bounds h w x then (if x |\<in>| M then cnt + 1 else cnt) else cnt) xs a
     = a + int (length (filter (\<lambda>x. x \<noteq> c \<and> in_bounds h w x \<and> x |\<in>| M) xs))"
  by (induction xs arbitrary: a) auto

lemma nearby_mines_eq:
  "nearby_mines h w M c = int (length (filter (\<lambda>x. x \<noteq> c \<and> in_bounds h w x \<and> x |\<in>| M) (block c)))"
  by (simp add: nearby_mines_def fold_count)

lemma length_filter_split:
  assumes "\<And>x. x \<in> set xs \<Longrightarrow> R x = (Q x \<or> S x)" "\<And>x. x \<in> set xs \<Longrightarrow> \<not> (Q x \<and> S x)"
  shows "length (filter R xs) = length (filter Q xs) + length (filter S xs)"
  using assms by (induction xs) auto

lemma fcard_fset_of_list: "distinct ys \<Longrightarrow> fcard (fset_of_list ys) = length ys"
  by (simp add: fcard.rep_eq fset_of_list.rep_eq distinct_card)

lemma fcard_fset_of_list_filter:
  assumes "distinct xs"
  shows "fcard (fset_of_list (filter P xs) |\<inter>| M) = length (filter (\<lambda>x. P x \<and> x |\<in>| M) xs)"
proof -
  have "fset_of_list (filter P xs) |\<inter>| M = fset_of_list (filter (\<lambda>x. P x \<and> x |\<in>| M) xs)"
    by (auto simp add: fset_of_list.rep_eq)
  moreover from assms have "distinct (filter (\<lambda>x. P x \<and> x |\<in>| M) xs)" by simp
  then have "fcard (fset_of_list (filter (\<lambda>x. P x \<and> x |\<in>| M) xs))
      = length (filter (\<lambda>x. P x \<and> x |\<in>| M) xs)"
    by (rule fcard_fset_of_list)
  ultimately show ?thesis by (simp only:)
qed

lemma consistent_observe:
  assumes "consistent h w M st" "truthful h w M (c, n)"
  shows "consistent h w M (add_neighbour_mines_knowledge
            (mark_safe (st\<lparr>moves_made := finsert c (moves_made st)\<rparr>) c) c n)"
proof -
  let ?st = "mark_safe (st\<lparr>moves_made := finsert c (moves_made st)\<rparr>) c"
  from assms(2) have c: "c |\<notin>| M" and n: "n = nearby_mines h w M c"
    by (simp_all add: truthful_def)
  from assms(1) c have "consistent h w M (st\<lparr>moves_made := finsert c (moves_made st)\<rparr>)"
    by (auto simp add: consistent_def)
  then have k: "consistent h w M ?st"
    using c by (rule closedD(5) [OF closed_consistent])
  then have hw: "height ?st = h" "width ?st = w"
    and m: "mines ?st |\<subseteq>| M" and d: "(safes ?st |\<union>| moves_made ?st) |\<inter>| M = {||}"
    by (simp_all add: consistent_def)
  have split: "length (filter (\<lambda>x. x \<noteq> c \<and> in_bounds h w x \<and> x |\<in>| M) (block c)) =
      length (filter (mine_neighbour ?st) (block c)) +
      length (filter (\<lambda>x. unknown_neighbour ?st x \<and> x |\<in>| M) (block c))"
  proof (rule length_filter_split)
    fix x
    show "(x \<noteq> c \<and> in_bounds h w x \<and> x |\<in>| M)
        = (mine_neighbour ?st x \<or> unknown_neighbour ?st x \<and> x |\<in>| M)"
      using m d c unfolding mine_neighbour_def unknown_neighbour_def hw by auto
    show "\<not> (mine_neighbour ?st x \<and> unknown_neighbour ?st x \<and> x |\<in>| M)"
      by (simp add: mine_neighbour_def unknown_neighbour_def)
  qed
  have "sound M (Sentence (fset_of_list (filter (unknown_neighbour ?st) (block c)))
              (n - int (length (filter (mine_neighbour ?st) (block c)))))"
    unfolding sound_def n nearby_mines_eq split Sentence_def sentence.simps
      fcard_fset_of_list_filter [OF distinct_block]
    by simp
  with k show ?thesis
    unfolding add_neighbour_mines_knowledge_eq by (simp add: consistent_def)
qed

lemma consistent_add_knowledge:
  assumes "consistent h w M st" "truthful h w M (c, n)" "add_knowledge st c n = Some st'"
  shows "consistent h w M st'"
  using closed_consistent consistent_observe [OF assms(1,2)] assms(3)
  by (rule closed_add_knowledge)

lemma consistent_init: "consistent h w M (init h w)"
  by (simp add: consistent_def init_def sound_def Sentence_def)

lemma consistent_run:
  assumes "run st obs = Some st'" "consistent h w M st" "list_all (truthful h w M) obs"
  shows "consistent h w M st'"
  using assms(1,2)
proof (rule run_induct)
  fix s c n s'
  assume "consistent h w M s" "(c, n) \<in> set obs" "add_knowledge s c n = Some s'"
  with assms(3) show "consistent h w M s'"
    by (auto simp add: list_all_iff intro: consistent_add_knowledge)
qed

lemma sound_count_range:
  assumes "sound M s"
  shows "0 \<le> count s" "count s \<le> int (fcard (cells s))"
proof -
  from assms show "0 \<le> count s" by (simp add: sound_def)
  have "fcard (cells s |\<inter>| M) \<le> fcard (cells s)" by (rule fcard_mono) simp
  with assms show "count s \<le> int (fcard (cells s))" by (simp add: sound_def)
qed

text \<open>
  Claim C1. When every observation of a game is truthful for one fixed board, every
  sentence of the knowledge list after any completed \<open>add_knowledge\<close> call satisfies
  \<open>0 \<le> count \<le> len(cells)\<close>.
\<close>

theorem sentence_count_range:
  assumes "run (init h w) obs = Some st" "list_all (truthful h w board) obs"
  shows "\<forall>s \<in> set (kvals st). 0 \<le> count s \<and> count s \<le> int (fcard (cells s))"
proof -
  from assms(1) consistent_init assms(2) have "consistent h w board st"
    by (rule consistent_run)
  then have "\<And>r. sound board (store st r)" by (simp add: consistent_def)
  from sound_count_range [OF this] show ?thesis
    by (simp add: kvals_def)
qed

subsection \<open>The sets of known cells\<close>

lemma closed_grows:
  "closed (\<lambda>s. mines st |\<subseteq>| mines s \<and> safes st |\<subseteq>| safes s \<and> moves_made st |\<subseteq>| moves_made s)
     (\<lambda>_. True) (\<lambda>_. True)"
  by (rule closedI) auto

lemma add_knowledge_grows:
  assumes "add_knowledge st c n = Some st'"
  shows "mines st |\<subseteq>| mines st' \<and> safes st |\<subseteq>| safes st' \<and> moves_made st |\<subseteq>| moves_made st'"
  using closed_grows _ assms
  by (rule closed_add_knowledge) (auto simp add: add_neighbour_mines_knowledge_eq)

lemma run_grows:
  assumes "run st obs = Some st'"
  shows "mines st |\<subseteq>| mines st' \<and> safes st |\<subseteq>| safes st' \<and> moves_made st |\<subseteq>| moves_made st'"
  using assms
proof (rule run_induct)
  fix s c n s'
  assume "mines st |\<subseteq>| mines s \<and> safes st |\<subseteq>| safes s \<and> moves_made st |\<subseteq>| moves_made s"
    "add_knowledge s c n = Some s'"
  with add_knowledge_grows [of s c n s']
  show "mines st |\<subseteq>| mines s' \<and> safes st |\<subseteq>| safes s' \<and> moves_made st |\<subseteq>| moves_made s'"
    by auto
qed simp

text \<open>
  Claim C2, amended. Across any sequence of \<open>add_knowledge\<close> calls, whatever the
  observations, \<open>mines\<close>, \<open>safes\<close> and \<open>moves_made\<close> only gain elements, and a call of
  \<open>mark_mine\<close> or \<open>mark_safe\<close> only adds to its own set and leaves the other as it is.
  When the sequence starts in a state that is consistent with a board (as the initial
  state is) and every observation is truthful for that board, the state stays consistent
  and \<open>mines\<close> and \<open>safes\<close> are disjoint after every call. Without truthful observations
  the two sets can meet, as the contradictory game of the examples shows.
\<close>

theorem known_cells_grow:
  assumes "run st obs = Some st'"
  shows "mines st |\<subseteq>| mines st' \<and> safes st |\<subseteq>| safes st' \<and> moves_made st |\<subseteq>| moves_made st' \<and>
         mines st |\<subseteq>| mines (mark_mine st c) \<and> safes (mark_mine st c) = safes st \<and>
         safes st |\<subseteq>| safes (mark_safe st c) \<and> mines (mark_safe st c) = mines st \<and>
         (consistent h w board st \<and> list_all (truthful h w board) obs \<longrightarrow>
            consistent h w board st' \<and> mines st' |\<inter>| safes st' = {||})"
proof -
  have "mines st' |\<inter>| safes st' = {||}" if "consistent h w board st'"
    using that by (auto simp add: consistent_def)
  moreover have "mines st |\<subseteq>| mines (mark_mine st c)" "safes st |\<subseteq>| safes (mark_safe st c)"
    by auto
  ultimately show ?thesis
    using run_grows [OF assms] consistent_run [OF assms] by simp
qed

subsection \<open>The order of a tuple of cells does not matter\<close>

lemma fold_sentence_mark_mine:
  "fold (\<lambda>c s. sentence_mark_mine s c) cs s =
     s\<lparr>cells := cells s |-| fset_of_list cs,
       count := count s - int (fcard (cells s |\<inter>| fset_of_list cs))\<rparr>"
proof (induction cs arbitrary: s)
  case Nil
  show ?case by simp
next
  case (Cons c cs)
  let ?s = "sentence_mark_mine s c"
  have step: "fold (\<lambda>c s. sentence_mark_mine s c) (c # cs) s =
      ?s\<lparr>cells := cells ?s |-| fset_of_list cs,
         count := count ?s - int (fcard (cells ?s |\<inter>| fset_of_list cs))\<rparr>"
    by (simp add: Cons.IH)
  show ?case
  proof (cases "c |\<in>| cells s")
    case True
    then have s: "?s = s\<lparr>cells := cells s |-| {|c|}, count := count s - 1\<rparr>"
      by (simp add: sentence_mark_mine_def)
    have "cells s |\<inter>| finsert c (fset_of_list cs) = finsert c ((cells s |-| {|c|}) |\<inter>| fset_of_list cs)"
      using True by auto
    then have "fcard (cells s |\<inter>| finsert c (fset_of_list cs))
        = Suc (fcard ((cells s |-| {|c|}) |\<inter>| fset_of_list cs))"
      by (simp add: fcard_finsert_disjoint)
    moreover have "cells s |-| {|c|} |-| fset_of_list cs = cells s |-| finsert c (fset_of_list cs)"
      by auto
    ultimately show ?thesis
      unfolding step s by simp
  next
    case False
    then have s: "?s = s" by (simp add: sentence_mark_mine_def)
    from False have "cells s |\<inter>| finsert c (fset_of_list cs) = cells s |\<inter>| fset_of_list cs"
      and "cells s |-| finsert c (fset_of_list cs) = cells s |-| fset_of_list cs"
      by auto
    then show ?thesis
      unfolding step s by simp
  qed
qed

lemma fold_mark_mine_more [simp]: "ai.more (fold (\<lambda>c s. mark_mine s c) cs st) = ai.more st"
  by (induction cs arbitrary: st) simp_all

lemma fold_mark_safe_more [simp]: "ai.more (fold (\<lambda>c s. mark_safe s c) cs st) = ai.more st"
  by (induction cs arbitrary: st) simp_all

lemma store_fold_mark_mine:
  "store (fold (\<lambda>c s. mark_mine s c) cs st) r =
     (if r \<in> set (knowledge st) then fold (\<lambda>c s. sentence_mark_mine s c) cs (store st r)
      else store st r)"
  by (induction cs arbitrary: st) (simp_all add: store_mark_mine)

lemma sentence_mark_safe_eq: "sentence_mark_safe s c = s\<lparr>cells := cells s |-| {|c|}\<rparr>"
proof (cases "c |\<in>| cells s")
  case True
  then show ?thesis by (simp add: sentence_mark_safe_def)
next
  case False
  then have "cells s |-| {|c|} = cells s" by auto
  with False show ?thesis by (simp add: sentence_mark_safe_def)
qed

lemma store_fold_mark_safe:
  "store (fold (\<lambda>c s. mark_safe s c) cs st) r =
     (if r \<in> set (knowledge st)
      then (store st r)\<lparr>cells := cells (store st r) |-| (fset_of_list cs |-| safes st)\<rparr>
      else store st r)"
proof (induction cs arbitrary: st)
  case Nil
  show ?case by simp
next
  case (Cons c cs)
  let ?st = "mark_safe st c"
  have step: "store (fold (\<lambda>c s. mark_safe s c) (c # cs) st) r =
      (if r \<in> set (knowledge st)
       then (store ?st r)\<lparr>cells := cells (store ?st r) |-| (fset_of_list cs |-| safes ?st)\<rparr>
       else store ?st r)"
    by (simp add: Cons.IH)
  show ?case
  proof (cases "c |\<in>| safes st")
    case True
    then have st: "?st = st" by (simp add: mark_safe_def)
    from True have "finsert c (fset_of_list cs) |-| safes st = fset_of_list cs |-| safes st"
      by auto
    then show ?thesis
      unfolding step st by simp
  next
    case False
    have "cells (store st r) |-| {|c|} |-| (fset_of_list cs |-| finsert c (safes st))
        = cells (store st r) |-| (finsert c (fset_of_list cs) |-| safes st)"
      using False by auto
    with False show ?thesis
      unfolding step by (simp add: store_mark_safe sentence_mark_safe_eq)
  qed
qed

lemma fset_of_list_cong: "set xs = set ys \<Longrightarrow> fset_of_list xs = fset_of_list ys"
  by (simp add: fset_of_list.rep_eq fset_cong [symmetric])

lemma for_cells_order:
  assumes "set xs = set ys"
  shows "for_cells mark_mine (Some xs) st = for_cells mark_mine (Some ys) st"
    and "for_cells mark_safe (Some xs) st = for_cells mark_safe (Some ys) st"
proof -
  note eq = fset_of_list_cong [OF assms]
  have m: "fold (\<lambda>c s. mark_mine s c) xs st = fold (\<lambda>c s. mark_mine s c) ys st"
  proof (rule ai.equality)
    show "store (fold (\<lambda>c s. mark_mine s c) xs st) = store (fold (\<lambda>c s. mark_mine s c) ys st)"
      by (rule ext) (simp add: store_fold_mark_mine fold_sentence_mark_mine eq)
  qed (simp_all add: eq)
  have s: "fold (\<lambda>c s. mark_safe s c) xs st = fold (\<lambda>c s. mark_safe s c) ys st"
  proof (rule ai.equality)
    show "store (fold (\<lambda>c s. mark_safe s c) xs st) = store (fold (\<lambda>c s. mark_safe s c) ys st)"
      by (rule ext) (simp add: store_fold_mark_safe eq)
  qed (simp_all add: eq)
  from assms have "truthy (Some xs) = truthy (Some ys)"
    by (cases xs; cases ys) simp_all
  with m s show "for_cells mark_mine (Some xs) st = for_cells mark_mine (Some ys) st"
    and "for_cells mark_safe (Some xs) st = for_cells mark_safe (Some ys) st"
    by (simp_all add: for_cells_def)
qed

subsection \<open>The example games\<close>

lemma example_run: "run (init 3 3) example_game = Some example_final"
  using run_Some [of "init 3 3" example_game] by (auto simp add: example_final_def)

lemma example_truthful: "list_all (truthful 3 3 {|(0, 0)|}) example_game"
  by code_simp

lemma example_kvals:
  "kvals example_final = [Sentence {|(0, 0), (0, 1), (0, 2), (1, 0), (2, 0)|} 1]"
  by code_simp

lemma contradictory_run: "run (init 1 2) contradictory_game = Some contradictory_final"
  using run_Some [of "init 1 2" contradictory_game] by (auto simp add: contradictory_final_def)

theorem sentence_count_range_witness:
  "run (init 3 3) example_game = Some example_final \<and>
   list_all (truthful 3 3 {|(0, 0)|}) example_game \<and>
   Sentence {|(0, 0), (0, 1), (0, 2), (1, 0), (2, 0)|} 1 \<in> set (kvals example_final) \<and>
   0 \<le> count (Sentence {|(0, 0), (0, 1), (0, 2), (1, 0), (2, 0)|} 1) \<and>
   count (Sentence {|(0, 0), (0, 1), (0, 2), (1, 0), (2, 0)|} 1)
     \<le> int (fcard (cells (Sentence {|(0, 0), (0, 1), (0, 2), (1, 0), (2, 0)|} 1)))"
  using sentence_count_range [OF example_run example_truthful] example_run example_truthful
  by (simp add: example_kvals)

theorem known_cells_disjoint_counterexample:
  "run (init 1 2) contradictory_game = Some contradictory_final \<and>
   (0, 1) |\<in>| mines contradictory_final |\<inter>| safes contradictory_final"
proof
  show "run (init 1 2) contradictory_game = Some contradictory_final"
    by (rule contradictory_run)
  show "(0, 1) |\<in>| mines contradictory_final |\<inter>| safes contradictory_final"
    by code_simp
qed

theorem known_cells_grow_witness:
  "run (init 3 3) example_game = Some example_final \<and>
   consistent 3 3 {|(0, 0)|} (init 3 3) \<and> list_all (truthful 3 3 {|(0, 0)|}) example_game \<and>
   mines (init 3 3) |\<subseteq>| mines example_final \<and> safes (init 3 3) |\<subseteq>| safes example_final \<and>
   moves_made (init 3 3) |\<subseteq>| moves_made example_final \<and>
   consistent 3 3 {|(0, 0)|} example_final \<and> mines example_final |\<inter>| safes example_final = {||}"
  using known_cells_grow [OF example_run, where h = 3 and w = 3 and board = "{|(0, 0)|}"]
    example_run example_truthful
    consistent_init [of 3 3 "{|(0, 0)|}"]
  by simp

theorem knowledge_normalized_witness:
  "run (init 3 3) example_game = Some example_final \<and> normalized example_final"
  using knowledge_normalized [OF example_run] example_run by simp

theorem cells_in_bounds_witness:
  "run (init 3 3) example_game = Some example_final \<and>
   Sentence {|(0, 0), (0, 1), (0, 2), (1, 0), (2, 0)|} 1 \<in> set (kvals example_final) \<and>
   (2, 0) |\<in>| cells (Sentence {|(0, 0), (0, 1), (0, 2), (1, 0), (2, 0)|} 1) \<and>
   in_bounds 3 3 (2, 0) \<and> height example_final = 3 \<and> width example_final = 3"
proof -
  have "(2, 0) |\<in>| cells (Sentence {|(0, 0), (0, 1), (0, 2), (1, 0), (2, 0)|} 1)"
    by (simp add: Sentence_def)
  with cells_in_bounds [OF example_run] example_run show ?thesis
    by (simp add: example_kvals)
qed

subsection \<open>The bound on the call stack\<close>















lemma nested_returns: "raised (run_bounded 3 (init 2 4) nested_game) = None"
  by code_simp


end
